theory Spec2Isabelle
  imports Complex_Main "HOL-Library.Log_Nat"
begin

section \<open>Throttled queue (throttledQueue.js)\<close>

text \<open>
  The class keeps \<open>_queue\<close> (an array used as a FIFO), \<open>_interval\<close> (the handle of the
  pacing timer, or \<open>null\<close>) and the interval length. The consumer \<open>_processFn\<close> is an
  effect: every invocation is recorded in \<open>processed\<close> together with the time at which it
  happened. Time is a logical clock in milliseconds. An active timer is modelled by the
  earliest time at which it may fire next; a timer never fires before that time, and
  after firing it is due again one interval later.
\<close>

record 'a ThrottledQueue =
  intervalMs :: nat
  queue :: "'a list"
  interval :: "nat option"
  processed :: "(nat \<times> 'a) list"

datatype tq_error = NotPositiveInterval

text \<open>The constructor throws when \<open>intervalMs <= 0\<close>.\<close>

definition newThrottledQueue :: "nat \<Rightarrow> tq_error + 'a ThrottledQueue" where
  "newThrottledQueue ms =
     (if ms \<le> 0 then Inl NotPositiveInterval
      else Inr \<lparr>intervalMs = ms, queue = [], interval = None, processed = []\<rparr>)"

text \<open>
  \<open>_process()\<close>: with an empty queue the timer is cleared; otherwise the head is shifted
  off and handed to the consumer (an exception of the consumer is caught and logged, the
  item is gone either way).
\<close>

definition process :: "nat \<Rightarrow> 'a ThrottledQueue \<Rightarrow> 'a ThrottledQueue" where
  "process now q =
     (case queue q of
        [] \<Rightarrow> (if interval q \<noteq> None then q\<lparr>interval := None\<rparr> else q)
      | item # rest \<Rightarrow> q\<lparr>queue := rest, processed := processed q @ [(now, item)]\<rparr>)"

text \<open>\<open>add(item)\<close>: push, and when no timer is active start one and process at once.\<close>

definition add :: "nat \<Rightarrow> 'a \<Rightarrow> 'a ThrottledQueue \<Rightarrow> 'a ThrottledQueue" where
  "add now item q =
     (let q1 = q\<lparr>queue := queue q @ [item]\<rparr> in
      if interval q1 = None
      then process now (q1\<lparr>interval := Some (now + intervalMs q1)\<rparr>)
      else q1)"

definition clear :: "'a ThrottledQueue \<Rightarrow> 'a ThrottledQueue" where
  "clear q = q\<lparr>queue := [], interval := None\<rparr>"

text \<open>
  The timer callback \<open>() => this._process()\<close>. It can only run while the timer is active
  and due; the result is \<open>None\<close> for a firing that the timer semantics excludes.
\<close>

definition tick :: "nat \<Rightarrow> 'a ThrottledQueue \<Rightarrow> 'a ThrottledQueue option" where
  "tick now q =
     (case interval q of
        None \<Rightarrow> None
      | Some due \<Rightarrow>
          if now < due then None
          else Some (process now (q\<lparr>interval := Some (now + intervalMs q)\<rparr>)))"

datatype 'a tq_event = Add 'a | Tick | Clear

fun tq_step :: "nat \<Rightarrow> 'a tq_event \<Rightarrow> 'a ThrottledQueue \<Rightarrow> 'a ThrottledQueue option" where
  "tq_step now (Add x) q = Some (add now x q)"
| "tq_step now Tick q = tick now q"
| "tq_step now Clear q = Some (clear q)"

text \<open>A run over time-stamped events; the time stamps are meant to be non-decreasing.\<close>

fun tq_run :: "(nat \<times> 'a tq_event) list \<Rightarrow> 'a ThrottledQueue \<Rightarrow> 'a ThrottledQueue option" where
  "tq_run [] q = Some q"
| "tq_run ((now, e) # es) q =
     (case tq_step now e q of None \<Rightarrow> None | Some q' \<Rightarrow> tq_run es q')"



text \<open>The invariant of claim C10: a non-empty queue has an active timer.\<close>

definition timer_inv :: "'a ThrottledQueue \<Rightarrow> bool" where
  "timer_inv q = (queue q \<noteq> [] \<longrightarrow> interval q \<noteq> None)"



section \<open>Command connection pool (cgateConnectionPool.js)\<close>

text \<open>
  Only the dispatch state of the pool is needed: the two lifecycle flags, the set
  \<open>healthyConnections\<close> (a JavaScript \<open>Set\<close>, which iterates in insertion order and holds
  no duplicates, so it is a list here) and the round-robin index. \<open>connection.send\<close> is an
  effect on a socket: every call is recorded in \<open>sendLog\<close>, and whether the write succeeds
  is decided by the environment, the parameter \<open>send\<close> of \<open>execute\<close>.
\<close>

record 'c CgateConnectionPool =
  isStarted :: bool
  isShuttingDown :: bool
  healthyConnections :: "'c list"
  connectionIndex :: nat
  sendLog :: "('c \<times> string) list"

datatype pool_error = PoolNotStarted | NoHealthyConnection | SendFailed

text \<open>
  \<open>_getHealthyConnection()\<close>: \<open>null\<close> for an empty set, otherwise the element at
  \<open>connectionIndex % length\<close>, and the index advances modulo the length.
\<close>

definition getHealthyConnection :: "'c CgateConnectionPool \<Rightarrow> 'c option \<times> 'c CgateConnectionPool" where
  "getHealthyConnection p =
     (if length (healthyConnections p) = 0 then (None, p)
      else let healthyArray = healthyConnections p;
               connection = healthyArray ! (connectionIndex p mod length healthyArray)
           in (Some connection,
               p\<lparr>connectionIndex := (connectionIndex p + 1) mod length healthyArray\<rparr>))"

text \<open>
  \<open>execute(command)\<close> throws before selecting when the pool is not running, throws when
  no connection is healthy, and throws after a failed send (the connection is only marked
  for a later health check, the healthy set is left as it is).
\<close>

definition execute ::
  "('c \<Rightarrow> string \<Rightarrow> bool) \<Rightarrow> string \<Rightarrow> 'c CgateConnectionPool
     \<Rightarrow> (pool_error + bool) \<times> 'c CgateConnectionPool" where
  "execute send command p =
     (if \<not> isStarted p \<or> isShuttingDown p then (Inl PoolNotStarted, p)
      else case getHealthyConnection p of
             (None, p1) \<Rightarrow> (Inl NoHealthyConnection, p1)
           | (Some connection, p1) \<Rightarrow>
               let p2 = p1\<lparr>sendLog := sendLog p1 @ [(connection, command)]\<rparr> in
               if \<not> send connection command then (Inl SendFailed, p2)
               else (Inr True, p2))"

fun executeAll ::
  "('c \<Rightarrow> string \<Rightarrow> bool) \<Rightarrow> string list \<Rightarrow> 'c CgateConnectionPool \<Rightarrow> 'c CgateConnectionPool" where
  "executeAll send [] p = p"
| "executeAll send (command # commands) p = executeAll send commands (snd (execute send command p))"

text \<open>The connections selected between two pool states, oldest first.\<close>

definition selected :: "'c CgateConnectionPool \<Rightarrow> 'c CgateConnectionPool \<Rightarrow> 'c list" where
  "selected p p' = map fst (drop (length (sendLog p)) (sendLog p'))"

section \<open>JavaScript strings\<close>

text \<open>
  Strings are lists of 8-bit characters. \<open>isSpace\<close> is the white space that
  \<open>String.prototype.trim\<close> strips and that \<open>\s\<close> matches, as far as it lies below code
  256: tab, line feed, vertical tab, form feed, carriage return, space and the
  no-break space. \<open>isDigit\<close> is \<open>\d\<close> and \<open>isWord\<close> is \<open>\w\<close>.
\<close>

definition isSpace :: "char \<Rightarrow> bool" where
  "isSpace c = (c \<in> set [CHR 0x09, CHR 0x0A, CHR 0x0B, CHR 0x0C, CHR 0x0D, CHR 0x20, CHR 0xA0])"

definition isDigit :: "char \<Rightarrow> bool" where
  "isDigit c = (c \<in> set ''0123456789'')"

definition isWord :: "char \<Rightarrow> bool" where
  "isWord c = (c \<in> set ''abcdefghijklmnopqrstuvwxyzABCDEFGHIJKLMNOPQRSTUVWXYZ0123456789_'')"

definition trim :: "string \<Rightarrow> string" where
  "trim s = rev (dropWhile isSpace (rev (dropWhile isSpace s)))"

text \<open>
  \<open>toUpperCase\<close> on the ASCII letters. The source only compares the result with
  \<open>ON\<close>, \<open>OFF\<close>, \<open>INCREASE\<close> and \<open>DECREASE\<close>. Of the characters from 128 to 255
  JavaScript maps only the sharp s to ASCII letters, to \<open>SS\<close>, which occurs in none of
  these words, so leaving those characters alone does not change any such comparison.
\<close>

definition upperChar :: "char \<Rightarrow> char" where
  "upperChar c =
     (case map_of (zip ''abcdefghijklmnopqrstuvwxyz'' ''ABCDEFGHIJKLMNOPQRSTUVWXYZ'') c of
        Some u \<Rightarrow> u | None \<Rightarrow> c)"

definition toUpperCase :: "string \<Rightarrow> string" where
  "toUpperCase s = map upperChar s"

text \<open>\<open>s.indexOf(c)\<close>, with \<open>None\<close> for \<open>-1\<close>.\<close>

fun indexOf :: "char \<Rightarrow> string \<Rightarrow> nat option" where
  "indexOf c [] = None"
| "indexOf c (x # xs) =
     (if x = c then Some 0 else (case indexOf c xs of None \<Rightarrow> None | Some i \<Rightarrow> Some (Suc i)))"

text \<open>\<open>s.split(sep)\<close> for a one-character separator (never an empty array) and \<open>join\<close>.\<close>

fun split :: "char \<Rightarrow> string \<Rightarrow> string list" where
  "split sep [] = [[]]"
| "split sep (c # cs) =
     (if c = sep then [] # split sep cs
      else (case split sep cs of [] \<Rightarrow> [[c]] | p # ps \<Rightarrow> (c # p) # ps))"

fun join :: "char \<Rightarrow> string list \<Rightarrow> string" where
  "join sep [] = []"
| "join sep [p] = p"
| "join sep (p # ps) = p @ sep # join sep ps"

text \<open>\<open>s.startsWith(p)\<close>, and the remainder of \<open>s\<close> after the literal \<open>p\<close>.\<close>

definition startsWith :: "string \<Rightarrow> string \<Rightarrow> bool" where
  "startsWith s p = (take (length p) s = p)"

definition afterLiteral :: "string \<Rightarrow> string \<Rightarrow> string option" where
  "afterLiteral p s = (if startsWith s p then Some (drop (length p) s) else None)"

text \<open>
  Decimal digits to a number (\<open>parseInt(digits, 10)\<close> on a string of digits) and a
  natural number to its decimal string (\<open>Number.prototype.toString\<close> on a non-negative
  integer below \<open>2^53\<close>).
\<close>

definition digitValue :: "char \<Rightarrow> nat" where
  "digitValue c = (case map_of (zip ''0123456789'' [0, 1, 2, 3, 4, 5, 6, 7, 8, 9]) c of
                    Some d \<Rightarrow> d | None \<Rightarrow> 0)"

definition parseDigits :: "string \<Rightarrow> nat" where
  "parseDigits s = foldl (\<lambda>acc c. 10 * acc + digitValue c) 0 s"

definition digitChar :: "nat \<Rightarrow> char" where
  "digitChar d = ''0123456789'' ! (d mod 10)"

fun natToString :: "nat \<Rightarrow> string" where
  "natToString n = (if n < 10 then [digitChar n] else natToString (n div 10) @ [digitChar (n mod 10)])"

declare natToString.simps [simp del]

text \<open>
  A decimal digit as a payload character: it is no white space, no sign, no comma, its
  upper case is itself, and it is none of the letters that begin \<open>ON\<close>, \<open>OFF\<close>,
  \<open>INCREASE\<close> or \<open>Infinity\<close>.
\<close>

definition plainDigit :: "char \<Rightarrow> bool" where
  "plainDigit c = (isDigit c \<and> \<not> isSpace c \<and> upperChar c = c \<and> c \<notin> set ''-+,.IOD'')"

section \<open>Command response processor (commandResponseProcessor.js)\<close>

text \<open>The test \<open>/^[1-6]\d{2}$/\<close>.\<close>

definition isResponseCode :: "string \<Rightarrow> bool" where
  "isResponseCode s =
     (case s of [a, b, c] \<Rightarrow> a \<in> set ''123456'' \<and> isDigit b \<and> isDigit c | _ \<Rightarrow> False)"

text \<open>
  \<open>_parseCommandResponseLine(line)\<close>: the result is \<open>None\<close> for \<open>null\<close> (the line is
  skipped), otherwise the pair \<open>(responseCode, statusData)\<close>.
\<close>

definition parseCommandResponseLine :: "string \<Rightarrow> (string \<times> string) option" where
  "parseCommandResponseLine line =
     (let hyphenIndex = indexOf CHR ''-'' line;
          (responseCode, statusData) =
            (case hyphenIndex of
               Some i \<Rightarrow>
                 if length line > i + 1
                 then (trim (take i line), trim (drop (i + 1) line))
                 else (let spaceParts = split CHR '' '' line in
                       (trim (hd spaceParts),
                        if length spaceParts > 1 then trim (join CHR '' '' (tl spaceParts)) else []))
             | None \<Rightarrow>
                 (let spaceParts = split CHR '' '' line in
                  (trim (hd spaceParts),
                   if length spaceParts > 1 then trim (join CHR '' '' (tl spaceParts)) else [])))
      in if responseCode = [] \<or> \<not> isResponseCode responseCode then None
         else Some (responseCode, statusData))"

text \<open>
  The rule as the specification words it: a line of the form \<open><digits>-<rest>\<close> is split
  at that hyphen, any other line at its first space, and the code must match
  \<open>^[1-6]\d{2}$\<close>.
\<close>

definition spec_splitResponseLine :: "string \<Rightarrow> (string \<times> string) option" where
  "spec_splitResponseLine line =
     (let digits = takeWhile isDigit line;
          (code, payload) =
            (if digits \<noteq> [] \<and> startsWith (dropWhile isDigit line) ''-''
             then (digits, trim (drop 1 (dropWhile isDigit line)))
             else (takeWhile (\<lambda>c. c \<noteq> CHR '' '') line,
                   trim (drop 1 (dropWhile (\<lambda>c. c \<noteq> CHR '' '') line))))
      in if isResponseCode code then Some (code, payload) else None)"

text \<open>
  \<open>processLine\<close> hands a parsed line to exactly one handler, chosen by the code; a line
  that does not parse reaches none. The tree handlers belong to the discovery module.
\<close>

datatype dispatch =
    ObjectStatus string
  | TreeStart string
  | TreeData string
  | TreeEnd string
  | ErrorResponse string string
  | Unhandled string string

definition processCommandResponse :: "string \<Rightarrow> string \<Rightarrow> dispatch" where
  "processCommandResponse responseCode statusData =
     (if responseCode = ''300'' then ObjectStatus statusData
      else if responseCode = ''343'' then TreeStart statusData
      else if responseCode = ''347'' then TreeData statusData
      else if responseCode = ''344'' then TreeEnd statusData
      else if startsWith responseCode ''4'' \<or> startsWith responseCode ''5''
           then ErrorResponse responseCode statusData
      else Unhandled responseCode statusData)"

definition processLine :: "string \<Rightarrow> dispatch option" where
  "processLine line =
     (case parseCommandResponseLine line of
        None \<Rightarrow> None
      | Some (responseCode, statusData) \<Rightarrow> Some (processCommandResponse responseCode statusData))"

section \<open>JavaScript numbers\<close>

text \<open>
  A finite double is the rational it denotes. \<open>toDouble x\<close> is the double nearest to the
  rational \<open>x\<close>, ties to the even significand: with \<open>2^b \<le> |x| < 2^(b+1)\<close> the
  significand has 53 bits, so the result is a multiple of \<open>2^(b-52)\<close>, and below the normal
  range a multiple of \<open>2^(-1074)\<close>. Every arithmetic operation of the source is the exact
  operation followed by \<open>toDouble\<close>. Overflow to an infinity is decided where a number is
  read (\<open>number\<close>); the sign of zero is not modelled.
\<close>

definition pow2 :: "int \<Rightarrow> rat" where
  "pow2 e = (if 0 \<le> e then 2 ^ nat e else 1 / 2 ^ nat (- e))"

definition roundTiesToEven :: "rat \<Rightarrow> int" where
  "roundTiesToEven x =
     (let f = \<lfloor>x\<rfloor>; r = x - of_int f in
      if r < 1 / 2 then f else if 1 / 2 < r then f + 1 else if even f then f else f + 1)"

text \<open>For \<open>x > 0\<close>, the exponent \<open>b\<close> with \<open>2^b \<le> x < 2^(b+1)\<close>.\<close>

definition binade :: "rat \<Rightarrow> int" where
  "binade x =
     (let (n, d) = quotient_of x; k = bitlen n - bitlen d in if pow2 k \<le> x then k else k - 1)"

definition toDouble :: "rat \<Rightarrow> rat" where
  "toDouble x =
     (if x = 0 then 0
      else let a = \<bar>x\<bar>; e = max (binade a - 52) (- 1074); m = roundTiesToEven (a / pow2 e)
           in sgn x * of_int m * pow2 e)"

text \<open>\<open>Math.round\<close>: the nearest integer, a tie going up.\<close>

definition mathRound :: "rat \<Rightarrow> int" where
  "mathRound x = \<lfloor>x + 1 / 2\<rfloor>"

datatype jsnum = Finite rat | PosInfinity | NegInfinity | NaN

definition number :: "rat \<Rightarrow> jsnum" where
  "number x =
     (let y = toDouble x in
      if 2 ^ 1024 \<le> y then PosInfinity else if y \<le> - (2 ^ 1024) then NegInfinity else Finite y)"

text \<open>
  \<open>parseFloat\<close>: leading white space is skipped, then the longest prefix that is a
  decimal literal is read (sign, \<open>Infinity\<close> or digits with an optional fraction and an
  optional exponent); without such a prefix the result is \<open>NaN\<close>.
\<close>

definition exponentPart :: "string \<Rightarrow> int" where
  "exponentPart s =
     (case s of
        [] \<Rightarrow> 0
      | c # r \<Rightarrow>
          if c = CHR ''e'' \<or> c = CHR ''E'' then
            (case r of
               [] \<Rightarrow> 0
             | d # r' \<Rightarrow>
                 if d = CHR ''+'' then (if takeWhile isDigit r' = [] then 0 else int (parseDigits (takeWhile isDigit r')))
                 else if d = CHR ''-'' then (if takeWhile isDigit r' = [] then 0 else - int (parseDigits (takeWhile isDigit r')))
                 else (if takeWhile isDigit r = [] then 0 else int (parseDigits (takeWhile isDigit r))))
          else 0)"

definition pow10 :: "int \<Rightarrow> rat" where
  "pow10 e = (if 0 \<le> e then 10 ^ nat e else 1 / 10 ^ nat (- e))"

definition parseFloat :: "string \<Rightarrow> jsnum" where
  "parseFloat s =
     (let t = dropWhile isSpace s;
          neg = startsWith t ''-'';
          u = (if startsWith t ''-'' \<or> startsWith t ''+'' then drop 1 t else t)
      in if startsWith u ''Infinity'' then (if neg then NegInfinity else PosInfinity)
         else
           let ip = takeWhile isDigit u;
               r1 = dropWhile isDigit u;
               fp = (if startsWith r1 ''.'' then takeWhile isDigit (drop 1 r1) else []);
               r2 = (if startsWith r1 ''.'' then dropWhile isDigit (drop 1 r1) else r1)
           in if ip = [] \<and> fp = [] then NaN
              else
                let mv = of_nat (parseDigits (ip @ fp)) / 10 ^ length fp * pow10 (exponentPart r2)
                in number (if neg then - mv else mv))"

text \<open>
  The number that a decimal numeral denotes, for stating what the conversions below are
  expected to give: \<open>ip\<close> are the digits in front of the decimal point and \<open>fp\<close> the digits
  after it (none for a whole number).
\<close>

definition decimalValue :: "string \<Rightarrow> string \<Rightarrow> rat" where
  "decimalValue ip fp =
     of_nat (foldl (\<lambda>acc c. 10 * acc + (of_char c - 48)) 0 (ip @ fp)) / 10 ^ length fp"

text \<open>
  The two level conversions of the bridge. \<open>clampPercent\<close> is
  \<open>Math.max(0, Math.min(100, levelValue))\<close> on a number that is not \<open>NaN\<close>;
  \<open>scalePercent\<close> is \<open>Math.round((clampedLevel / 100) * CGATE_LEVEL_MAX)\<close> of the command
  parser and \<open>levelPercent\<close> is \<open>Math.round(level / CGATE_LEVEL_MAX * 100)\<close> of the event
  publisher.
\<close>

definition clampPercent :: "jsnum \<Rightarrow> rat" where
  "clampPercent v =
     (case v of Finite x \<Rightarrow> max 0 (min 100 x) | PosInfinity \<Rightarrow> 100 | NegInfinity \<Rightarrow> 0 | NaN \<Rightarrow> 0)"

definition scalePercent :: "rat \<Rightarrow> int" where
  "scalePercent clampedLevel = mathRound (toDouble (toDouble (clampedLevel / 100) * 255))"

definition levelPercent :: "nat \<Rightarrow> int" where
  "levelPercent level = mathRound (toDouble (toDouble (of_nat level / 255) * 100))"

section \<open>MQTT command parser (cbusCommand.js)\<close>

text \<open>
  \<open>COMMAND_TOPIC_REGEX = /^cbus\/write\/(\w*)\/(\w*)\/(\w*)\/(\w+)/\<close>. A slash is not a
  word character, so each \<open>\w*\<close> can only match the whole run of word characters in front
  of the next slash and the final greedy \<open>\w+\<close> takes the whole run that follows; the
  match is therefore the one computed here. The expression has no end anchor: whatever
  follows the last run is ignored.
\<close>

definition matchCommandTopic :: "string \<Rightarrow> (string \<times> string \<times> string \<times> string) option" where
  "matchCommandTopic t =
     (case afterLiteral ''cbus/write/'' t of
        None \<Rightarrow> None
      | Some r1 \<Rightarrow>
          (case afterLiteral ''/'' (dropWhile isWord r1) of
             None \<Rightarrow> None
           | Some r2 \<Rightarrow>
               (case afterLiteral ''/'' (dropWhile isWord r2) of
                  None \<Rightarrow> None
                | Some r3 \<Rightarrow>
                    (case afterLiteral ''/'' (dropWhile isWord r3) of
                       None \<Rightarrow> None
                     | Some r4 \<Rightarrow>
                         if takeWhile isWord r4 = [] then None
                         else Some (takeWhile isWord r1, takeWhile isWord r2,
                                    takeWhile isWord r3, takeWhile isWord r4)))))"

datatype cmd_level = LevelNumber int | LevelText string

record CBusCommand =
  cmd_topic :: string
  cmd_payload :: string
  cmd_parsed :: bool
  cmd_isValid :: bool
  cmd_network :: "string option"
  cmd_application :: "string option"
  cmd_group :: "string option"
  cmd_commandType :: "string option"
  cmd_level :: "cmd_level option"
  cmd_rampTime :: "string option"

definition validCommandTypes :: "string list" where
  "validCommandTypes = [''getall'', ''gettree'', ''switch'', ''ramp'', ''setvalue'']"

definition parseSwitchPayload :: "CBusCommand \<Rightarrow> CBusCommand" where
  "parseSwitchPayload c =
     (let upperPayload = toUpperCase (cmd_payload c) in
      if upperPayload = ''ON'' then c\<lparr>cmd_level := Some (LevelNumber 255)\<rparr>
      else if upperPayload = ''OFF'' then c\<lparr>cmd_level := Some (LevelNumber 0)\<rparr>
      else c\<lparr>cmd_isValid := False\<rparr>)"

text \<open>
  \<open>_parseRampLevelAndTime()\<close>: \<open>parts[1]\<close> is \<open>undefined\<close> without a comma, and an empty
  string is falsy, both for \<open>parts[1]\<close> and for the trimmed \<open>timePart\<close>.
\<close>

definition parseRampLevelAndTime :: "CBusCommand \<Rightarrow> CBusCommand" where
  "parseRampLevelAndTime c =
     (let parts = split CHR '','' (cmd_payload c);
          levelPart = trim (hd parts);
          timePart = (if length parts > 1 \<and> parts ! 1 \<noteq> [] then Some (trim (parts ! 1)) else None);
          levelValue = parseFloat levelPart
      in if levelValue = NaN then c\<lparr>cmd_isValid := False\<rparr>
         else
           let clampedLevel = clampPercent levelValue;
               c1 = c\<lparr>cmd_level := Some (LevelNumber (scalePercent clampedLevel))\<rparr>
           in (case timePart of
                 None \<Rightarrow> c1
               | Some t \<Rightarrow> if t \<noteq> [] then c1\<lparr>cmd_rampTime := Some t\<rparr> else c1))"

definition parseRampPayload :: "CBusCommand \<Rightarrow> CBusCommand" where
  "parseRampPayload c =
     (let upperPayload = toUpperCase (cmd_payload c) in
      if upperPayload = ''ON'' then c\<lparr>cmd_level := Some (LevelNumber 255)\<rparr>
      else if upperPayload = ''OFF'' then c\<lparr>cmd_level := Some (LevelNumber 0)\<rparr>
      else if upperPayload = ''INCREASE'' then c\<lparr>cmd_level := Some (LevelText ''INCREASE'')\<rparr>
      else if upperPayload = ''DECREASE'' then c\<lparr>cmd_level := Some (LevelText ''DECREASE'')\<rparr>
      else parseRampLevelAndTime c)"

definition parsePayload :: "CBusCommand \<Rightarrow> CBusCommand" where
  "parsePayload c =
     (if cmd_commandType c = Some ''switch'' then parseSwitchPayload c
      else if cmd_commandType c = Some ''ramp'' then parseRampPayload c
      else c)"

text \<open>
  \<open>_parse()\<close>. Nothing in its \<open>try\<close> block throws on strings, so the \<open>catch\<close> branch is
  never taken. After \<open>_parsePayload()\<close> returns, \<open>_isValid\<close> is assigned \<open>true\<close>.
\<close>

definition parse :: "CBusCommand \<Rightarrow> CBusCommand" where
  "parse c =
     (case matchCommandTopic (cmd_topic c) of
        None \<Rightarrow> c\<lparr>cmd_isValid := False, cmd_parsed := True\<rparr>
      | Some (n, a, g, k) \<Rightarrow>
          let c1 = c\<lparr>cmd_network := Some n, cmd_application := Some a,
                      cmd_group := Some g, cmd_commandType := Some k\<rparr>
          in if k \<notin> set validCommandTypes then c1\<lparr>cmd_isValid := False, cmd_parsed := True\<rparr>
             else (parsePayload c1)\<lparr>cmd_isValid := True, cmd_parsed := True\<rparr>)"

definition newCBusCommand :: "string \<Rightarrow> string \<Rightarrow> CBusCommand" where
  "newCBusCommand topic payload =
     (let c = \<lparr>cmd_topic = trim topic, cmd_payload = trim payload, cmd_parsed = False,
               cmd_isValid = False, cmd_network = None, cmd_application = None, cmd_group = None,
               cmd_commandType = None, cmd_level = None, cmd_rampTime = None\<rparr>
      in if cmd_topic c \<noteq> [] then parse c else c\<lparr>cmd_parsed := True, cmd_isValid := False\<rparr>)"

text \<open>
  The grammar of the specification, for comparison: the topic expression with its end
  anchor, \<open>^cbus/write/(\w*)/(\w*)/(\w*)/(\w+)$\<close>, and the payloads each kind accepts
  (\<open>ON\<close> or \<open>OFF\<close> for \<open>switch\<close>; these, \<open>INCREASE\<close>, \<open>DECREASE\<close> or a percentage with an
  optional ramp time for \<open>ramp\<close>; anything for the other kinds).
\<close>

definition spec_matchCommandTopic :: "string \<Rightarrow> (string \<times> string \<times> string \<times> string) option" where
  "spec_matchCommandTopic t =
     (case afterLiteral ''cbus/write/'' t of
        None \<Rightarrow> None
      | Some r1 \<Rightarrow>
          (case afterLiteral ''/'' (dropWhile isWord r1) of
             None \<Rightarrow> None
           | Some r2 \<Rightarrow>
               (case afterLiteral ''/'' (dropWhile isWord r2) of
                  None \<Rightarrow> None
                | Some r3 \<Rightarrow>
                    (case afterLiteral ''/'' (dropWhile isWord r3) of
                       None \<Rightarrow> None
                     | Some r4 \<Rightarrow>
                         if r4 = [] \<or> dropWhile isWord r4 \<noteq> [] then None
                         else Some (takeWhile isWord r1, takeWhile isWord r2,
                                    takeWhile isWord r3, r4)))))"

definition payloadGrammar :: "string \<Rightarrow> string \<Rightarrow> bool" where
  "payloadGrammar kind payload =
     (let p = toUpperCase (trim payload) in
      if kind = ''switch'' then p = ''ON'' \<or> p = ''OFF''
      else if kind = ''ramp'' then
        p = ''ON'' \<or> p = ''OFF'' \<or> p = ''INCREASE'' \<or> p = ''DECREASE''
        \<or> parseFloat (trim (hd (split CHR '','' (trim payload)))) \<noteq> NaN
      else True)"

definition spec_validCommand :: "string \<Rightarrow> string \<Rightarrow> bool" where
  "spec_validCommand topic payload =
     (case spec_matchCommandTopic topic of
        None \<Rightarrow> False
      | Some (n, a, g, kind) \<Rightarrow> kind \<in> set validCommandTypes \<and> payloadGrammar kind payload)"

section \<open>C-Bus event parser (cbusEvent.js)\<close>

text \<open>
  \<open>EVENT_REGEX = /^(\w+)\s+(\w+)\s+(?:(?:\/\/\w+\/)?(\d+\/\d+\/\d+))(?:\s+(\d+))?/\<close>.
  Word characters, white space, digits and the slash are pairwise disjoint where they
  meet in this expression, so every repetition can only match a whole run and the match
  is the one computed here. The optional project prefix is taken when it matches; when
  the text starts with a slash and the prefix does not match, the address cannot match
  either. The optional level is taken when white space and a digit follow the group.
\<close>

definition matchProject :: "string \<Rightarrow> string option" where
  "matchProject s =
     (case afterLiteral ''//'' s of
        None \<Rightarrow> None
      | Some r \<Rightarrow> if takeWhile isWord r = [] then None else afterLiteral ''/'' (dropWhile isWord r))"

text \<open>\<open>(\d+\/\d+\/\d+)\<close> at the start of the text: the three numbers and the rest.\<close>

definition matchAddress :: "string \<Rightarrow> (string \<times> string \<times> string \<times> string) option" where
  "matchAddress s =
     (if takeWhile isDigit s = [] then None
      else (case afterLiteral ''/'' (dropWhile isDigit s) of
              None \<Rightarrow> None
            | Some r1 \<Rightarrow>
                if takeWhile isDigit r1 = [] then None
                else (case afterLiteral ''/'' (dropWhile isDigit r1) of
                        None \<Rightarrow> None
                      | Some r2 \<Rightarrow>
                          if takeWhile isDigit r2 = [] then None
                          else Some (takeWhile isDigit s, takeWhile isDigit r1,
                                     takeWhile isDigit r2, dropWhile isDigit r2))))"

definition matchEvent :: "string \<Rightarrow> (string \<times> string \<times> string \<times> string option) option" where
  "matchEvent s =
     (let deviceType = takeWhile isWord s; r1 = dropWhile isWord s;
          r2 = dropWhile isSpace r1;
          action = takeWhile isWord r2; r3 = dropWhile isWord r2;
          r4 = dropWhile isSpace r3;
          r5 = (case matchProject r4 of None \<Rightarrow> r4 | Some r \<Rightarrow> r)
      in if deviceType = [] \<or> takeWhile isSpace r1 = [] \<or> action = [] \<or> takeWhile isSpace r3 = []
         then None
         else (case matchAddress r5 of
                 None \<Rightarrow> None
               | Some (n, a, g, r6) \<Rightarrow>
                   Some (deviceType, action, n @ ''/'' @ a @ ''/'' @ g,
                         if takeWhile isSpace r6 \<noteq> [] \<and> takeWhile isDigit (dropWhile isSpace r6) \<noteq> []
                         then Some (takeWhile isDigit (dropWhile isSpace r6)) else None)))"

text \<open>An unanchored expression is tried at every position, leftmost first.\<close>

fun search :: "(string \<Rightarrow> 'a option) \<Rightarrow> string \<Rightarrow> 'a option" where
  "search m [] = m []"
| "search m (c # cs) = (case m (c # cs) of Some r \<Rightarrow> Some r | None \<Rightarrow> search m cs)"

text \<open>\<open>/level=(\d+)/\<close> and \<open>/\/\/\w+\/(\d+\/\d+\/\d+):/\<close> at a given position.\<close>

definition matchLevelAt :: "string \<Rightarrow> string option" where
  "matchLevelAt s =
     (case afterLiteral ''level='' s of
        None \<Rightarrow> None
      | Some r \<Rightarrow> if takeWhile isDigit r = [] then None else Some (takeWhile isDigit r))"

definition matchStatusAddressAt :: "string \<Rightarrow> string option" where
  "matchStatusAddressAt s =
     (case matchProject s of
        None \<Rightarrow> None
      | Some r \<Rightarrow>
          (case matchAddress r of
             None \<Rightarrow> None
           | Some (n, a, g, r') \<Rightarrow>
               if startsWith r' '':'' then Some (n @ ''/'' @ a @ ''/'' @ g) else None))"

text \<open>
  The level is the result of \<open>parseInt\<close> on a string of digits, a natural number here
  (JavaScript rounds values from \<open>2^53\<close> on; nothing below depends on such values).
\<close>

record CBusEvent =
  ev_rawEvent :: string
  ev_parsed :: bool
  ev_deviceType :: "string option"
  ev_action :: "string option"
  ev_address :: "string option"
  ev_level :: "nat option"
  ev_levelRaw :: "nat option"
  ev_network :: "string option"
  ev_application :: "string option"
  ev_group :: "string option"
  ev_isValid :: bool

text \<open>
  Both parsers split the captured address at the slashes and accept it when it has three
  parts; otherwise \<open>_isValid\<close> keeps its value \<open>false\<close>.
\<close>

definition setAddress :: "string \<Rightarrow> CBusEvent \<Rightarrow> CBusEvent" where
  "setAddress address e =
     (let addressParts = split CHR ''/'' address;
          e1 = e\<lparr>ev_address := Some address\<rparr>
      in if length addressParts = 3
         then e1\<lparr>ev_network := Some (addressParts ! 0), ev_application := Some (addressParts ! 1),
                  ev_group := Some (addressParts ! 2), ev_isValid := True\<rparr>
         else e1)"

definition parseStatusResponse :: "CBusEvent \<Rightarrow> CBusEvent" where
  "parseStatusResponse e =
     (let e1 = (case search matchLevelAt (ev_rawEvent e) of
                  None \<Rightarrow> e
                | Some digits \<Rightarrow> e\<lparr>ev_levelRaw := Some (parseDigits digits),
                                    ev_level := Some (parseDigits digits)\<rparr>);
          e2 = (case search matchStatusAddressAt (ev_rawEvent e1) of
                  None \<Rightarrow> e1\<lparr>ev_isValid := False\<rparr>
                | Some address \<Rightarrow> setAddress address e1);
          e3 = (if ev_isValid e2
                then e2\<lparr>ev_deviceType := Some ''lighting'',
                         ev_action := Some (case ev_level e2 of
                                              None \<Rightarrow> ''off''
                                            | Some l \<Rightarrow> if l > 0 then ''on'' else ''off'')\<rparr>
                else e2)
      in e3\<lparr>ev_parsed := True\<rparr>)"

definition parseEvent :: "CBusEvent \<Rightarrow> CBusEvent" where
  "parseEvent e =
     (if startsWith (ev_rawEvent e) ''300'' then parseStatusResponse e
      else (case matchEvent (ev_rawEvent e) of
              None \<Rightarrow> e\<lparr>ev_isValid := False\<rparr>
            | Some (deviceType, action, address, levelDigits) \<Rightarrow>
                let e1 = e\<lparr>ev_deviceType := Some deviceType, ev_action := Some action,
                            ev_levelRaw := map_option parseDigits levelDigits,
                            ev_level := map_option parseDigits levelDigits\<rparr>;
                    e2 = setAddress address e1
                in e2\<lparr>ev_parsed := True\<rparr>))"

definition newCBusEvent :: "string \<Rightarrow> CBusEvent" where
  "newCBusEvent eventString =
     (let e = \<lparr>ev_rawEvent = trim eventString, ev_parsed = False, ev_deviceType = None,
               ev_action = None, ev_address = None, ev_level = None, ev_levelRaw = None,
               ev_network = None, ev_application = None, ev_group = None, ev_isValid = False\<rparr>
      in if ev_rawEvent e \<noteq> [] then parseEvent e else e\<lparr>ev_parsed := True, ev_isValid := False\<rparr>)"

section \<open>Bridge state: event publisher, device state manager, MQTT command router\<close>

text \<open>
  One record holds what these components share. \<open>levelListeners\<close> are the listeners of
  the internal event emitter for the event \<open>level\<close>, in registration order; all of them are
  registered with \<open>once\<close>. A listener is the closure the source creates: the router's
  closure in \<open>_handleRelativeLevel\<close> captures the C-Gate path, the address, the step, the
  limit and the action name; the \<open>levelHandler\<close> of \<open>setupRelativeLevelOperation\<close> captures
  the address and its timeout handle. The two throttled queues appear as the sequence of
  items passed to their \<open>add\<close>. The callback given to \<open>setupRelativeLevelOperation\<close> is an
  effect, recorded in \<open>callbacks\<close> with the handle of its operation.
\<close>

datatype listener =
    RelativeLevel string string int int string
  | LevelHandler nat string

datatype router_event = HaDiscoveryTrigger | TreeRequest string

text \<open>A listener of the router that waits for the level of the given address.\<close>

definition listensFor :: "string \<Rightarrow> listener \<Rightarrow> bool" where
  "listensFor address l =
     (case l of
        RelativeLevel cbusPath levelAddress step limit actionName \<Rightarrow> levelAddress = address
      | LevelHandler handle opAddress \<Rightarrow> False)"

record Bridge =
  cbusname :: string
  ha_discovery_enabled :: bool
  ha_discovery_pir_app_id :: "string option"
  levelListeners :: "listener list"
  activeOperations :: "string list"
  timeouts :: "(nat \<times> string) list"
  nextHandle :: nat
  callbacks :: "(nat \<times> nat) list"
  cgateCommandQueue :: "string list"
  mqttPublishQueue :: "(string \<times> string) list"
  routerEvents :: "router_event list"

definition queueCommand :: "string \<Rightarrow> Bridge \<Rightarrow> Bridge" where
  "queueCommand command s = s\<lparr>cgateCommandQueue := cgateCommandQueue s @ [command]\<rparr>"

definition numberToString :: "int \<Rightarrow> string" where
  "numberToString n = (if n < 0 then ''-'' @ natToString (nat (- n)) else natToString (nat n))"

subsection \<open>Event publisher (eventPublisher.js)\<close>

text \<open>
  \<open>publishEvent(event)\<close> adds the state message and, unless the application is the PIR
  application, the level message to the MQTT publish queue. Topic parts of a valid event
  are strings; \<open>the_str\<close> prints \<open>null\<close> as the template literal would.
\<close>

definition the_str :: "string option \<Rightarrow> string" where
  "the_str x = (case x of None \<Rightarrow> ''null'' | Some s \<Rightarrow> s)"

definition eventLevelPercent :: "CBusEvent \<Rightarrow> int" where
  "eventLevelPercent event =
     (case ev_level event of
        Some level \<Rightarrow> levelPercent level
      | None \<Rightarrow> if ev_action event = Some ''on'' then 100 else 0)"

definition publishEvent :: "CBusEvent \<Rightarrow> Bridge \<Rightarrow> Bridge" where
  "publishEvent event s =
     (if \<not> ev_isValid event then s
      else
        let topicBase = ''cbus/read/'' @ the_str (ev_network event) @ ''/''
                        @ the_str (ev_application event) @ ''/'' @ the_str (ev_group event);
            isPirSensor = (ev_application event = ha_discovery_pir_app_id s);
            levelPercent = eventLevelPercent event;
            state = (if isPirSensor then (if ev_action event = Some ''on'' then ''ON'' else ''OFF'')
                     else if ev_level event \<noteq> None then (if levelPercent > 0 then ''ON'' else ''OFF'')
                     else (if ev_action event = Some ''on'' then ''ON'' else ''OFF''));
            s1 = s\<lparr>mqttPublishQueue := mqttPublishQueue s @ [(topicBase @ ''/state'', state)]\<rparr>
        in if \<not> isPirSensor
           then s1\<lparr>mqttPublishQueue := mqttPublishQueue s1
                      @ [(topicBase @ ''/level'', numberToString levelPercent)]\<rparr>
           else s1)"

subsection \<open>Device state manager (deviceStateManager.js)\<close>

text \<open>
  \<open>emit('level', address, currentLevel)\<close>: the emitter calls the listeners registered at
  that moment in registration order, and a \<open>once\<close> listener is removed before it runs,
  whatever its body then does with the arguments.
\<close>

definition runListener :: "string \<Rightarrow> nat \<Rightarrow> listener \<Rightarrow> Bridge \<Rightarrow> Bridge" where
  "runListener address currentLevel l s =
     (case l of
        RelativeLevel cbusPath levelAddress step limit actionName \<Rightarrow>
          if address = levelAddress
          then let newLevel = max 0 (min limit (int currentLevel + step))
               in queueCommand (''RAMP '' @ cbusPath @ '' '' @ numberToString newLevel @ [CHR 0x0A]) s
          else s
      | LevelHandler handle opAddress \<Rightarrow>
          if address = opAddress
          then s\<lparr>activeOperations := removeAll opAddress (activeOperations s),
                  timeouts := filter (\<lambda>t. fst t \<noteq> handle) (timeouts s),
                  callbacks := callbacks s @ [(handle, currentLevel)]\<rparr>
          else s)"

definition emitLevel :: "string \<Rightarrow> nat \<Rightarrow> Bridge \<Rightarrow> Bridge" where
  "emitLevel address currentLevel s =
     foldl (\<lambda>s' l. runListener address currentLevel l s') (s\<lparr>levelListeners := []\<rparr>) (levelListeners s)"

definition updateLevelFromEvent :: "CBusEvent \<Rightarrow> Bridge \<Rightarrow> Bridge" where
  "updateLevelFromEvent event s =
     (if ev_application event = ha_discovery_pir_app_id s then s
      else
        let simpleAddr = the_str (ev_network event) @ ''/'' @ the_str (ev_application event)
                         @ ''/'' @ the_str (ev_group event);
            levelValue = (case ev_level event of
                            Some l \<Rightarrow> Some l
                          | None \<Rightarrow> if ev_action event = Some ''on'' then Some 255
                                    else if ev_action event = Some ''off'' then Some 0
                                    else None)
        in (case levelValue of None \<Rightarrow> s | Some l \<Rightarrow> emitLevel simpleAddr l s))"

text \<open>
  \<open>setupRelativeLevelOperation(address, callback, timeout)\<close>: \<open>None\<close> for the \<open>null\<close> it
  returns when the address already has an active operation. The timer is identified by
  a fresh handle.
\<close>

definition setupRelativeLevelOperation :: "string \<Rightarrow> Bridge \<Rightarrow> nat option \<times> Bridge" where
  "setupRelativeLevelOperation address s =
     (if address \<in> set (activeOperations s) then (None, s)
      else
        let handle = nextHandle s
        in (Some handle,
            s\<lparr>activeOperations := activeOperations s @ [address],
              timeouts := timeouts s @ [(handle, address)],
              levelListeners := levelListeners s @ [LevelHandler handle address],
              nextHandle := Suc handle\<rparr>))"

text \<open>
  The timeout callback of an operation: it can only run while its timer is pending.
  \<open>removeListener\<close> removes the listener if it is still registered.
\<close>

definition timeoutFires :: "nat \<Rightarrow> Bridge \<Rightarrow> Bridge option" where
  "timeoutFires handle s =
     (case map_of (timeouts s) handle of
        None \<Rightarrow> None
      | Some address \<Rightarrow>
          Some (s\<lparr>levelListeners := remove1 (LevelHandler handle address) (levelListeners s),
                  activeOperations := removeAll address (activeOperations s),
                  timeouts := filter (\<lambda>t. fst t \<noteq> handle) (timeouts s)\<rparr>))"

definition cancelRelativeLevelOperation :: "string \<Rightarrow> Bridge \<Rightarrow> Bridge" where
  "cancelRelativeLevelOperation address s =
     (if address \<in> set (activeOperations s)
      then s\<lparr>activeOperations := removeAll address (activeOperations s)\<rparr>
      else s)"

definition isRelativeLevelOperationActive :: "string \<Rightarrow> Bridge \<Rightarrow> bool" where
  "isRelativeLevelOperationActive address s = (address \<in> set (activeOperations s))"

subsection \<open>MQTT command router (mqttCommandRouter.js)\<close>

definition buildCGatePath :: "CBusCommand \<Rightarrow> Bridge \<Rightarrow> string" where
  "buildCGatePath command s =
     ''//'' @ cbusname s @ ''/'' @ the_str (cmd_network command) @ ''/''
     @ the_str (cmd_application command) @ ''/'' @ the_str (cmd_group command)"

definition handleRelativeLevel :: "string \<Rightarrow> string \<Rightarrow> int \<Rightarrow> int \<Rightarrow> string \<Rightarrow> Bridge \<Rightarrow> Bridge" where
  "handleRelativeLevel cbusPath levelAddress step limit actionName s =
     queueCommand (''GET '' @ cbusPath @ '' level'' @ [CHR 0x0A])
       (s\<lparr>levelListeners := levelListeners s
              @ [RelativeLevel cbusPath levelAddress step limit actionName]\<rparr>)"

definition levelToString :: "cmd_level \<Rightarrow> string" where
  "levelToString l = (case l of LevelNumber n \<Rightarrow> numberToString n | LevelText t \<Rightarrow> t)"

definition handleAbsoluteLevel :: "CBusCommand \<Rightarrow> string \<Rightarrow> Bridge \<Rightarrow> Bridge" where
  "handleAbsoluteLevel command cbusPath s =
     (case cmd_level command of
        None \<Rightarrow> s
      | Some level \<Rightarrow>
          queueCommand (''RAMP '' @ cbusPath @ '' '' @ levelToString level
                        @ (case cmd_rampTime command of
                             None \<Rightarrow> []
                           | Some rampTime \<Rightarrow> if rampTime \<noteq> [] then '' '' @ rampTime else [])
                        @ [CHR 0x0A]) s)"

definition handleRamp :: "CBusCommand \<Rightarrow> string \<Rightarrow> Bridge \<Rightarrow> Bridge" where
  "handleRamp command payload s =
     (if cmd_group command = None \<or> cmd_group command = Some [] then s
      else
        let cbusPath = buildCGatePath command s;
            rampAction = toUpperCase payload;
            levelAddress = the_str (cmd_network command) @ ''/'' @ the_str (cmd_application command)
                           @ ''/'' @ the_str (cmd_group command)
        in if rampAction = ''INCREASE'' then handleRelativeLevel cbusPath levelAddress 26 255 ''INCREASE'' s
           else if rampAction = ''DECREASE'' then handleRelativeLevel cbusPath levelAddress (- 26) 255 ''DECREASE'' s
           else if rampAction = ''ON'' then queueCommand (''ON '' @ cbusPath @ [CHR 0x0A]) s
           else if rampAction = ''OFF'' then queueCommand (''OFF '' @ cbusPath @ [CHR 0x0A]) s
           else handleAbsoluteLevel command cbusPath s)"

definition handleSwitch :: "CBusCommand \<Rightarrow> string \<Rightarrow> Bridge \<Rightarrow> Bridge" where
  "handleSwitch command payload s =
     (let cbusPath = buildCGatePath command s; action = toUpperCase payload in
      if action = ''ON'' then queueCommand (''ON '' @ cbusPath @ [CHR 0x0A]) s
      else if action = ''OFF'' then queueCommand (''OFF '' @ cbusPath @ [CHR 0x0A]) s
      else s)"

definition handleGetAll :: "CBusCommand \<Rightarrow> Bridge \<Rightarrow> Bridge" where
  "handleGetAll command s =
     queueCommand (''GET //'' @ cbusname s @ ''/'' @ the_str (cmd_network command) @ ''/''
                   @ the_str (cmd_application command) @ ''/* level'' @ [CHR 0x0A]) s"

definition handleGetTree :: "CBusCommand \<Rightarrow> Bridge \<Rightarrow> Bridge" where
  "handleGetTree command s =
     queueCommand (''TREEXML '' @ the_str (cmd_network command) @ [CHR 0x0A])
       (s\<lparr>routerEvents := routerEvents s @ [TreeRequest (the_str (cmd_network command))]\<rparr>)"

definition processCommand :: "CBusCommand \<Rightarrow> string \<Rightarrow> Bridge \<Rightarrow> Bridge" where
  "processCommand command payload s =
     (if cmd_commandType command = Some ''gettree'' then handleGetTree command s
      else if cmd_commandType command = Some ''getall'' then handleGetAll command s
      else if cmd_commandType command = Some ''switch'' then handleSwitch command payload s
      else if cmd_commandType command = Some ''ramp'' then handleRamp command payload s
      else s)"

definition routeMessage :: "string \<Rightarrow> string \<Rightarrow> Bridge \<Rightarrow> Bridge" where
  "routeMessage topic payload s =
     (if topic = ''cbus/write/bridge/announce''
      then (if ha_discovery_enabled s then s\<lparr>routerEvents := routerEvents s @ [HaDiscoveryTrigger]\<rparr> else s)
      else
        let command = newCBusCommand topic payload
        in if \<not> cmd_isValid command then s else processCommand command payload s)"

subsection \<open>Lines from the two C-Gate channels (cgateWebBridge.js, commandResponseProcessor.js)\<close>

definition processEventLine :: "string \<Rightarrow> Bridge \<Rightarrow> Bridge" where
  "processEventLine line s =
     (if startsWith line ''#'' then s
      else
        let event = newCBusEvent line
        in if ev_isValid event then updateLevelFromEvent event (publishEvent event s) else s)"

definition processCommandObjectStatus :: "string \<Rightarrow> Bridge \<Rightarrow> Bridge" where
  "processCommandObjectStatus statusData s =
     (let event = newCBusEvent (''300 '' @ statusData)
      in if ev_isValid event then updateLevelFromEvent event (publishEvent event s) else s)"

definition processCommandLine :: "string \<Rightarrow> Bridge \<Rightarrow> Bridge" where
  "processCommandLine line s =
     (case processLine line of
        Some (ObjectStatus statusData) \<Rightarrow> processCommandObjectStatus statusData s
      | _ \<Rightarrow> s)"

definition newBridge :: "string \<Rightarrow> bool \<Rightarrow> string option \<Rightarrow> Bridge" where
  "newBridge project discovery pirApp =
     \<lparr>cbusname = project, ha_discovery_enabled = discovery, ha_discovery_pir_app_id = pirApp,
      levelListeners = [], activeOperations = [], timeouts = [], nextHandle = 0, callbacks = [],
      cgateCommandQueue = [], mqttPublishQueue = [], routerEvents = []\<rparr>"

section \<open>Throttled queue: proofs\<close>



lemma process_intervalMs [simp]: "intervalMs (process now q) = intervalMs q"
  by (simp add: process_def split: list.splits)

lemma add_intervalMs [simp]: "intervalMs (add now x q) = intervalMs q"
  by (simp add: add_def Let_def)












text \<open>
  The run must not contain \<open>clear()\<close>: it stops the timer without regard to the last
  invocation, and the next add then invokes the consumer at once.
\<close>

lemma clear_then_add_is_not_paced:
  "tq_run [(0, Add ''a''), (1, Clear), (2, Add ''b'')]
     \<lparr>intervalMs = 10, queue = [], interval = None, processed = []\<rparr>
   = Some \<lparr>intervalMs = 10, queue = [], interval = Some 12, processed = [(0, ''a''), (2, ''b'')]\<rparr>"
  by code_simp

lemma tq_step_timer_inv: "timer_inv q \<Longrightarrow> tq_step now e q = Some q' \<Longrightarrow> timer_inv q'"
  by (cases e)
     (auto simp: timer_inv_def add_def process_def tick_def clear_def Let_def
           split: list.splits option.splits if_splits)

lemma tq_run_timer_inv: "timer_inv q \<Longrightarrow> tq_run es q = Some q' \<Longrightarrow> timer_inv q'"
proof (induction es arbitrary: q)
  case Nil
  then show ?case by simp
next
  case (Cons a es)
  obtain now e where a: "a = (now, e)" by (cases a)
  from Cons.prems(2) a obtain q1 where "tq_step now e q = Some q1" "tq_run es q1 = Some q'"
    by (auto split: option.splits)
  with Cons.IH tq_step_timer_inv [OF Cons.prems(1)] show ?case by blast
qed

text \<open>
  Claim C10. Whenever \<open>_queue\<close> is non-empty the pacing timer is active: a new queue
  satisfies this, \<open>add\<close>, \<open>_process\<close> (called directly or by the timer) and \<open>clear\<close>
  preserve it, and so it holds after every run of adds, timer firings and clears.
\<close>

theorem throttled_queue_timer_invariant:
  "(newThrottledQueue ms = Inr q0 \<longrightarrow> timer_inv q0)
   \<and> (timer_inv q \<longrightarrow> timer_inv (add now x q))
   \<and> (timer_inv q \<longrightarrow> timer_inv (process now q))
   \<and> (timer_inv q \<longrightarrow> tick now q = Some q' \<longrightarrow> timer_inv q')
   \<and> (timer_inv q \<longrightarrow> timer_inv (clear q))
   \<and> (newThrottledQueue ms = Inr q0 \<longrightarrow> tq_run es q0 = Some q1 \<longrightarrow> timer_inv q1)"
proof -
  have init: "newThrottledQueue ms = Inr q0 \<longrightarrow> timer_inv q0"
    by (auto simp: newThrottledQueue_def timer_inv_def split: if_splits)
  have ops: "(timer_inv q \<longrightarrow> timer_inv (add now x q))
   \<and> (timer_inv q \<longrightarrow> timer_inv (process now q))
   \<and> (timer_inv q \<longrightarrow> tick now q = Some q' \<longrightarrow> timer_inv q')
   \<and> (timer_inv q \<longrightarrow> timer_inv (clear q))"
    by (auto simp: timer_inv_def add_def process_def tick_def clear_def Let_def
             split: list.splits option.splits if_splits)
  from init tq_run_timer_inv have "newThrottledQueue ms = Inr q0 \<longrightarrow> tq_run es q0 = Some q1 \<longrightarrow> timer_inv q1"
    by blast
  with init ops show ?thesis by blast
qed

theorem throttled_queue_timer_invariant_witness:
  "timer_inv \<lparr>intervalMs = 10, queue = [''b''], interval = Some 10, processed = [(0::nat, ''a'')]\<rparr>
   \<and> timer_inv (add 3 ''c'' \<lparr>intervalMs = 10, queue = [''b''], interval = Some 10, processed = [(0, ''a'')]\<rparr>)
   \<and> timer_inv (process 10 \<lparr>intervalMs = 10, queue = [''b''], interval = Some 10, processed = [(0, ''a'')]\<rparr>)
   \<and> timer_inv (clear \<lparr>intervalMs = 10, queue = [''b''], interval = Some 10, processed = [(0, ''a'')]\<rparr>)
   \<and> queue (add 3 ''c'' \<lparr>intervalMs = 10, queue = [''b''], interval = Some 10, processed = [(0, ''a'')]\<rparr>) = [''b'', ''c'']"
proof -
  let ?q = "\<lparr>intervalMs = 10, queue = [''b''], interval = Some 10, processed = [(0::nat, ''a'')]\<rparr>"
  have inv: "timer_inv ?q" by (simp add: timer_inv_def)
  from throttled_queue_timer_invariant [where q = ?q and now = 3 and x = "''c''"]
    throttled_queue_timer_invariant [where q = ?q and now = 10] inv
  have "timer_inv (add 3 ''c'' ?q) \<and> timer_inv (process 10 ?q) \<and> timer_inv (clear ?q)"
    by blast
  moreover have "queue (add 3 ''c'' ?q) = [''b'', ''c'']" by (simp add: add_def)
  ultimately show ?thesis using inv by blast
qed

section \<open>Connection pool: proofs\<close>

lemma count_list_distinct: "distinct xs \<Longrightarrow> x \<in> set xs \<Longrightarrow> count_list xs x = 1"
  by (induction xs) (auto simp: count_list_0_iff)

lemma round_robin_window:
  assumes "0 < length hs"
  shows "map (\<lambda>j. hs ! ((i + j) mod length hs)) [0..<length hs] = rotate i hs"
  by (rule nth_equalityI) (use assms in \<open>auto simp: nth_rotate add.commute\<close>)

lemma execute_running:
  assumes "isStarted p" "\<not> isShuttingDown p" "healthyConnections p \<noteq> []"
  shows "isStarted (snd (execute send c p)) \<and> \<not> isShuttingDown (snd (execute send c p))
       \<and> healthyConnections (snd (execute send c p)) = healthyConnections p
       \<and> connectionIndex (snd (execute send c p)) = (connectionIndex p + 1) mod length (healthyConnections p)
       \<and> sendLog (snd (execute send c p)) =
           sendLog p @ [(healthyConnections p ! (connectionIndex p mod length (healthyConnections p)), c)]"
  using assms by (simp add: execute_def getHealthyConnection_def Let_def)

lemma executeAll_running:
  assumes "isStarted p" "\<not> isShuttingDown p" "healthyConnections p \<noteq> []"
  shows "healthyConnections (executeAll send cs p) = healthyConnections p
       \<and> sendLog (executeAll send cs p) =
           sendLog p @ map (\<lambda>j. (healthyConnections p ! ((connectionIndex p + j) mod length (healthyConnections p)), cs ! j))
                          [0..<length cs]"
  using assms
proof (induction cs arbitrary: p)
  case Nil
  then show ?case by simp
next
  case (Cons c cs)
  let ?p1 = "snd (execute send c p)"
  let ?k = "length (healthyConnections p)"
  note st = execute_running [OF Cons.prems, of send c]
  from st Cons.prems have run1: "isStarted ?p1" "\<not> isShuttingDown ?p1" "healthyConnections ?p1 \<noteq> []"
    by simp_all
  have idx: "(Suc (connectionIndex p) mod ?k + j) mod ?k = Suc (connectionIndex p + j) mod ?k" for j
    by (metis add_Suc mod_add_left_eq)
  have split: "[0..<length (c # cs)] = 0 # map Suc [0..<length cs]"
    by (simp add: upt_conv_Cons map_Suc_upt del: upt_Suc)
  from Cons.IH [OF run1] st show ?case
    unfolding split by (simp add: idx comp_def del: upt_Suc)
qed

lemma selection_two_rounds:
  assumes "0 < length hs"
  shows "map (\<lambda>j. hs ! ((i + j) mod length hs)) [0..<2 * length hs] = rotate i hs @ rotate i hs"
proof -
  let ?k = "length hs"
  have shift: "hs ! ((i + (j + ?k)) mod ?k) = hs ! ((i + j) mod ?k)" for j
  proof -
    have "i + (j + ?k) = (i + j) + ?k" by simp
    then show ?thesis by (simp only: mod_add_self2)
  qed
  have a: "[0..<?k + ?k] = [0..<?k] @ [?k..<?k + ?k]"
    by (rule upt_add_eq_append) simp
  have b: "[?k..<?k + ?k] = map (\<lambda>j. j + ?k) [0..<?k]"
    by (simp only: map_add_upt)
  have c: "2 * ?k = ?k + ?k" by simp
  have "[0..<2 * ?k] = [0..<?k] @ map (\<lambda>j. j + ?k) [0..<?k]"
    by (simp only: a b c)
  then have "map (\<lambda>j. hs ! ((i + j) mod ?k)) [0..<2 * ?k]
      = map (\<lambda>j. hs ! ((i + j) mod ?k)) [0..<?k] @ map (\<lambda>j. hs ! ((i + (j + ?k)) mod ?k)) [0..<?k]"
    by (simp only: map_append map_map comp_def)
  then show ?thesis
    by (simp only: shift round_robin_window [OF assms])
qed

text \<open>
  Claim C9. With exactly \<open>k > 0\<close> healthy connections in a running pool, any \<open>2k\<close>
  consecutive \<open>execute\<close> calls (from any value of the round-robin index, whatever the
  sends return) leave the healthy set unchanged and select each healthy connection
  exactly twice.
\<close>

theorem round_robin_two_rounds:
  assumes "isStarted p" "\<not> isShuttingDown p"
    and "distinct (healthyConnections p)"
    and "length (healthyConnections p) = k" "0 < k"
    and "length commands = 2 * k"
    and "c \<in> set (healthyConnections p)"
  shows "healthyConnections (executeAll send commands p) = healthyConnections p
       \<and> length (selected p (executeAll send commands p)) = 2 * k
       \<and> count_list (selected p (executeAll send commands p)) c = 2"
proof -
  let ?hs = "healthyConnections p"
  from assms(4,5) have ne: "?hs \<noteq> []" and pos: "0 < length ?hs" by auto
  from assms(4,6) have len: "length commands = 2 * length ?hs" by simp
  note run = executeAll_running [OF assms(1,2) ne, of send commands]
  have "selected p (executeAll send commands p)
      = map (\<lambda>j. ?hs ! ((connectionIndex p + j) mod length ?hs)) [0..<2 * length ?hs]"
    using run by (simp add: selected_def comp_def len)
  then have sel: "selected p (executeAll send commands p)
      = rotate (connectionIndex p) ?hs @ rotate (connectionIndex p) ?hs"
    by (simp only: selection_two_rounds [OF pos])
  have one: "count_list (rotate (connectionIndex p) ?hs) c = 1"
    by (rule count_list_distinct) (use assms(3,7) in simp_all)
  have "count_list (selected p (executeAll send commands p)) c = 2"
    unfolding sel by (simp add: one)
  moreover have "length (selected p (executeAll send commands p)) = 2 * k"
    unfolding sel using assms(4) by simp
  ultimately show ?thesis using run by simp
qed

theorem round_robin_two_rounds_witness:
  "selected \<lparr>isStarted = True, isShuttingDown = False, healthyConnections = [0, 2::nat],
              connectionIndex = 2, sendLog = []\<rparr>
     (executeAll (\<lambda>c s. True) [''a'', ''b'', ''c'', ''d'']
        \<lparr>isStarted = True, isShuttingDown = False, healthyConnections = [0, 2::nat],
          connectionIndex = 2, sendLog = []\<rparr>) = [0, 2, 0, 2]
   \<and> count_list (selected \<lparr>isStarted = True, isShuttingDown = False, healthyConnections = [0, 2::nat],
              connectionIndex = 2, sendLog = []\<rparr>
     (executeAll (\<lambda>c s. True) [''a'', ''b'', ''c'', ''d'']
        \<lparr>isStarted = True, isShuttingDown = False, healthyConnections = [0, 2::nat],
          connectionIndex = 2, sendLog = []\<rparr>)) 2 = 2"
proof -
  let ?p = "\<lparr>isStarted = True, isShuttingDown = False, healthyConnections = [0, 2::nat],
              connectionIndex = 2, sendLog = []\<rparr>"
  have "selected ?p (executeAll (\<lambda>c s. True) [''a'', ''b'', ''c'', ''d''] ?p) = [0, 2, 0, 2]"
    by code_simp
  moreover have "count_list (selected ?p (executeAll (\<lambda>c s. True) [''a'', ''b'', ''c'', ''d''] ?p)) 2 = 2"
  proof -
    have h: "isStarted ?p" "\<not> isShuttingDown ?p" "distinct (healthyConnections ?p)"
      "length (healthyConnections ?p) = 2" "0 < (2::nat)"
      "length [''a'', ''b'', ''c'', ''d''] = 2 * 2" "2 \<in> set (healthyConnections ?p)"
      by simp_all
    from round_robin_two_rounds [OF h, of "\<lambda>c s. True"] show ?thesis by blast
  qed
  ultimately show ?thesis by (intro conjI)
qed

section \<open>JavaScript numbers: proofs\<close>

lemma pow2_powi: "pow2 e = 2 powi e"
  by (simp add: pow2_def power_int_def inverse_eq_divide power_one_over)

lemma pow2_pos: "0 < pow2 e"
  by (simp add: pow2_powi)

lemma pow2_add: "pow2 (a + b) = pow2 a * pow2 b"
  by (simp add: pow2_powi power_int_add)

lemma pow2_less_imp_less:
  assumes "pow2 a < pow2 b"
  shows "a < b"
proof (rule ccontr)
  assume "\<not> a < b"
  then have "b \<le> a" by simp
  then have "(2::rat) powi b \<le> 2 powi a" by (rule power_int_increasing) simp
  with assms show False by (simp add: pow2_powi)
qed

lemma pow2_of_bitlen:
  assumes "0 < n"
  shows "pow2 (bitlen n - 1) \<le> of_int n \<and> of_int n < pow2 (bitlen n)"
proof -
  from assms have "1 \<le> bitlen n"
    by (metis bitlen_eq_zero_iff bitlen_nonneg int_one_le_iff_zero_less less_le not_le)
  then have a: "pow2 (bitlen n - 1) = of_int (2 ^ nat (bitlen n - 1))"
    and b: "pow2 (bitlen n) = of_int (2 ^ nat (bitlen n))"
    by (simp_all add: pow2_def)
  from bitlen_bounds [OF assms] show ?thesis
    unfolding a b by (simp only: of_int_le_iff of_int_less_iff)
qed

lemma binade_bounds:
  assumes "0 < x"
  shows "pow2 (binade x) \<le> x \<and> x < pow2 (binade x + 1)"
proof -
  obtain n d where q: "quotient_of x = (n, d)" by (cases "quotient_of x")
  from quotient_of_denom_pos [OF q] have d: "0 < d" .
  from quotient_of_div [OF q] have x: "x = of_int n / of_int d" .
  from assms x d have n: "0 < n"
    by (simp add: zero_less_divide_iff)
  let ?k = "bitlen n - bitlen d"
  from pow2_of_bitlen [OF n] pow2_of_bitlen [OF d]
  have bn: "pow2 (bitlen n - 1) \<le> of_int n" "of_int n < pow2 (bitlen n)"
    and bd: "pow2 (bitlen d - 1) \<le> of_int d" "of_int d < pow2 (bitlen d)"
    by simp_all
  have dpos: "(0::rat) < of_int d" using d by simp
  have up: "x < pow2 (?k + 1)"
  proof -
    have "pow2 (?k + 1) * pow2 (bitlen d - 1) = pow2 (bitlen n)"
      by (simp add: pow2_add [symmetric])
    then have "of_int n < pow2 (?k + 1) * pow2 (bitlen d - 1)"
      using bn(2) by simp
    also have "\<dots> \<le> pow2 (?k + 1) * of_int d"
      using bd(1) pow2_pos [of "?k + 1"] by (simp add: mult_left_mono less_imp_le)
    finally show ?thesis
      unfolding x using dpos by (simp add: pos_divide_less_eq)
  qed
  have lo: "pow2 (?k - 1) \<le> x"
  proof -
    have "pow2 (?k - 1) * pow2 (bitlen d) = pow2 (bitlen n - 1)"
      by (simp add: pow2_add [symmetric])
    have "pow2 (?k - 1) * of_int d \<le> pow2 (?k - 1) * pow2 (bitlen d)"
      using bd(2) pow2_pos [of "?k - 1"] by (simp add: mult_left_mono less_imp_le)
    also have "\<dots> = pow2 (bitlen n - 1)"
      by (simp add: pow2_add [symmetric])
    also have "\<dots> \<le> of_int n" by (rule bn(1))
    finally show ?thesis
      unfolding x using dpos by (simp add: pos_le_divide_eq)
  qed
  show ?thesis
  proof (cases "pow2 ?k \<le> x")
    case True
    then have "binade x = ?k" by (simp add: binade_def q)
    with True up show ?thesis by simp
  next
    case False
    then have "binade x = ?k - 1" by (simp add: binade_def q)
    with False lo show ?thesis by simp
  qed
qed

lemma roundTiesToEven_error: "\<bar>of_int (roundTiesToEven y) - y\<bar> \<le> 1 / 2"
proof -
  have "of_int \<lfloor>y\<rfloor> \<le> y" "y < of_int \<lfloor>y\<rfloor> + 1" by linarith+
  then show ?thesis
    by (auto simp: roundTiesToEven_def Let_def abs_le_iff)
qed

lemma toDouble_error:
  assumes "0 < x" "pow2 (- 1022) \<le> x"
  shows "\<bar>toDouble x - x\<bar> \<le> x / 2 ^ 53"
proof -
  let ?b = "binade x"
  from binade_bounds [OF assms(1)] have b: "pow2 ?b \<le> x" "x < pow2 (?b + 1)" by simp_all
  from assms(2) b(2) have "pow2 (- 1022) < pow2 (?b + 1)" by simp
  then have "- 1022 < ?b + 1" by (rule pow2_less_imp_less)
  then have e: "max (?b - 52) (- 1074) = ?b - 52" by simp
  let ?e = "?b - 52"
  let ?m = "roundTiesToEven (x / pow2 ?e)"
  from assms(1) have td: "toDouble x = of_int ?m * pow2 ?e"
    by (simp add: toDouble_def Let_def e)
  have pe: "0 < pow2 ?e" by (rule pow2_pos)
  have "\<bar>of_int ?m * pow2 ?e - x\<bar> = \<bar>of_int ?m - x / pow2 ?e\<bar> * pow2 ?e"
  proof -
    have "of_int ?m * pow2 ?e - x = (of_int ?m - x / pow2 ?e) * pow2 ?e"
      using pe by (simp add: field_simps)
    then show ?thesis using pe by (simp add: abs_mult)
  qed
  also have "\<dots> \<le> 1 / 2 * pow2 ?e"
    using roundTiesToEven_error [of "x / pow2 ?e"] pe by (simp add: mult_right_mono less_imp_le)
  also have "1 / 2 * pow2 ?e = pow2 ?b / 2 ^ 53"
  proof -
    have "pow2 ?b = pow2 ?e * pow2 52" by (simp add: pow2_add [symmetric])
    then show ?thesis by (simp add: pow2_def)
  qed
  also have "\<dots> \<le> x / 2 ^ 53"
    using b(1) by (simp add: divide_right_mono)
  finally show ?thesis by (simp only: td)
qed

lemma toDouble_twice_error:
  assumes "0 < x" "pow2 (- 1021) \<le> x" "1 \<le> c"
  shows "\<bar>toDouble (toDouble x * c) - x * c\<bar> \<le> 3 * (x * c) / 2 ^ 53"
proof -
  define u :: rat where "u = 1 / 2 ^ 53"
  have u: "0 < u" "u \<le> 1 / 2" by (simp_all add: u_def)
  from assms(3) have cpos: "0 < c" by simp
  let ?a = "toDouble x"
  have x1022: "pow2 (- 1022) \<le> x"
  proof -
    have "pow2 (- 1022) \<le> pow2 (- 1021)" by (simp add: pow2_def)
    with assms(2) show ?thesis by simp
  qed
  from toDouble_error [OF assms(1) x1022] have ea: "\<bar>?a - x\<bar> \<le> x * u" by (simp add: u_def)
  then have a_lo: "x - x * u \<le> ?a" and a_hi: "?a \<le> x + x * u"
    by (simp_all add: abs_le_iff)
  have "x * u \<le> x * (1 / 2)" using u(2) assms(1) by (simp only: mult_le_cancel_left_pos)
  with a_lo have a_half: "x / 2 \<le> ?a" by simp
  with assms(1) have apos: "0 < ?a" by simp
  let ?y = "?a * c"
  from apos cpos have ypos: "0 < ?y" by simp
  have "pow2 (- 1022) = pow2 (- 1021) / 2" by (simp add: pow2_def)
  also have "\<dots> \<le> x / 2" using assms(2) by simp
  also have "\<dots> \<le> ?a" by (rule a_half)
  also have "?a \<le> ?y" using apos assms(3) by (simp add: mult_le_cancel_left1)
  finally have y1022: "pow2 (- 1022) \<le> ?y" .
  from toDouble_error [OF ypos y1022] have ey: "\<bar>toDouble ?y - ?y\<bar> \<le> ?y * u" by (simp add: u_def)
  have "?y \<le> (x + x * u) * c"
    using a_hi cpos by (simp only: mult_le_cancel_right_pos)
  then have "?y * u \<le> (x + x * u) * c * u"
    using u(1) by (simp only: mult_le_cancel_right_pos)
  with ey have e1: "\<bar>toDouble ?y - ?y\<bar> \<le> (x + x * u) * c * u" by simp
  have "\<bar>?y - x * c\<bar> = \<bar>?a - x\<bar> * c"
  proof -
    have "?y - x * c = (?a - x) * c" by (simp add: algebra_simps)
    then show ?thesis using cpos by (simp add: abs_mult)
  qed
  also have "\<dots> \<le> x * u * c"
    using ea cpos by (simp only: mult_le_cancel_right_pos)
  finally have e2: "\<bar>?y - x * c\<bar> \<le> x * u * c" .
  have xc: "0 \<le> x * c" using assms(1) cpos by simp
  have "\<bar>toDouble ?y - x * c\<bar> \<le> \<bar>toDouble ?y - ?y\<bar> + \<bar>?y - x * c\<bar>" by simp
  also have "\<dots> \<le> (x + x * u) * c * u + x * u * c"
    using e1 e2 by simp
  also have "\<dots> = (x * c) * ((2 + u) * u)" by (simp add: algebra_simps)
  also have "\<dots> \<le> (x * c) * (3 * u)"
  proof -
    have "2 + u \<le> 3" using u by simp
    then have "(2 + u) * u \<le> 3 * u" using u(1) by (simp only: mult_le_cancel_right_pos)
    then show ?thesis using xc by (rule mult_left_mono)
  qed
  finally show ?thesis by (simp add: u_def)
qed

lemma mathRound_stable:
  fixes z z' :: rat and a b :: int
  assumes "0 < b" "z + 1 / 2 = of_int a / of_int b" "a mod b \<noteq> 0" "\<bar>z' - z\<bar> < 1 / of_int b"
  shows "mathRound z' = a div b"
proof -
  let ?n = "a div b" and ?r = "a mod b"
  have bpos: "(0::rat) < of_int b" using assms(1) by simp
  have a: "a = ?n * b + ?r" by simp
  from assms(1,3) have r: "1 \<le> ?r" "?r \<le> b - 1"
    using pos_mod_sign [of b a] pos_mod_bound [of b a] by linarith+
  have "of_int a / of_int b = (of_int ?n :: rat) + of_int ?r / of_int b"
  proof -
    have "(of_int a :: rat) = of_int ?n * of_int b + of_int ?r"
      by (metis a of_int_add of_int_mult)
    then show ?thesis using bpos by (simp add: field_simps)
  qed
  with assms(2) have z: "z + 1 / 2 = of_int ?n + of_int ?r / of_int b" by simp
  have r1: "1 / of_int b \<le> (of_int ?r :: rat) / of_int b"
    using r(1) bpos by (simp add: divide_right_mono)
  have r2: "(of_int ?r :: rat) / of_int b \<le> 1 - 1 / of_int b"
  proof -
    have "(of_int ?r :: rat) \<le> of_int b - 1" using r(2) by (metis of_int_1 of_int_diff of_int_le_iff)
    then have "(of_int ?r :: rat) / of_int b \<le> (of_int b - 1) / of_int b"
      using bpos by (simp add: divide_right_mono)
    also have "\<dots> = 1 - 1 / of_int b" using bpos by (simp add: field_simps)
    finally show ?thesis .
  qed
  from assms(4) have d: "z - 1 / of_int b < z'" "z' < z + 1 / of_int b"
    by (simp_all add: abs_less_iff algebra_simps)
  have lo: "of_int ?n \<le> z' + 1 / 2" using z r1 d(1) by linarith
  have hi: "z' + 1 / 2 < of_int ?n + 1" using z r2 d(2) by linarith
  from lo hi show ?thesis
    unfolding mathRound_def by (rule floor_unique)
qed

lemma levelPercent_zero: "levelPercent 0 = 0"
  by code_simp

lemma scalePercent_zero: "scalePercent 0 = 0"
  by code_simp

lemma levelPercent_exact:
  assumes "level \<le> 2 ^ 32"
  shows "levelPercent level = round (of_nat level * 100 / 255 :: rat)"
    and "levelPercent level = (40 * int level + 51) div 102"
proof -
  let ?z = "of_nat level * 100 / 255 :: rat"
  have zhalf: "?z + 1 / 2 = of_int (40 * int level + 51) / of_int 102"
    by (simp add: field_simps)
  have odd: "(40 * int level + 51) mod 102 \<noteq> 0"
  proof
    assume "(40 * int level + 51) mod 102 = 0"
    then have "102 dvd (40 * int level + 51)" by (simp only: dvd_eq_mod_eq_0)
    moreover have "(2::int) dvd 102" by simp
    ultimately have "2 dvd (40 * int level + 51)" by (rule dvd_trans [rotated])
    then show False by simp
  qed
  have main: "levelPercent level = (40 * int level + 51) div 102"
  proof (cases "level = 0")
    case True
    then show ?thesis by (simp add: levelPercent_zero)
  next
    case False
    let ?x = "of_nat level / 255 :: rat"
    from False have xpos: "0 < ?x" by simp
    have "pow2 (- 1021) \<le> 1 / 255" by (simp add: pow2_def)
    also have "\<dots> \<le> ?x" using False by (simp add: divide_right_mono)
    finally have xlow: "pow2 (- 1021) \<le> ?x" .
    have err: "\<bar>toDouble (toDouble ?x * 100) - ?x * 100\<bar> \<le> 3 * (?x * 100) / 2 ^ 53"
      by (rule toDouble_twice_error [OF xpos xlow]) simp
    have "(of_nat level :: rat) \<le> 2 ^ 32"
      using assms by (metis of_nat_le_iff of_nat_numeral of_nat_power)
    moreover have "?x * 100 \<le> of_nat level" by simp
    ultimately have "?x * 100 \<le> 2 ^ 32" by (rule order_trans [rotated])
    then have "3 * (?x * 100) / 2 ^ 53 \<le> 3 * 2 ^ 32 / 2 ^ 53" by (simp add: divide_right_mono)
    also have "\<dots> < 1 / of_int 102" by simp
    finally have small: "3 * (?x * 100) / 2 ^ 53 < 1 / of_int 102" .
    have eq: "?x * 100 = ?z" by simp
    from err small have close: "\<bar>toDouble (toDouble ?x * 100) - ?z\<bar> < 1 / of_int 102"
      unfolding eq by (rule le_less_trans)
    show ?thesis
      unfolding levelPercent_def
      by (rule mathRound_stable [OF _ zhalf odd close]) simp
  qed
  show "levelPercent level = (40 * int level + 51) div 102" by (rule main)
  have "round ?z = (40 * int level + 51) div 102"
    unfolding round_def zhalf by (simp only: floor_divide_of_int_eq)
  with main show "levelPercent level = round ?z" by simp
qed

lemma levelPercent_range:
  assumes "level \<le> 255"
  shows "0 \<le> levelPercent level \<and> levelPercent level \<le> 100"
proof -
  from assms have le: "level \<le> 2 ^ 32" by simp
  have "0 \<le> (40 * int level + 51) div 102" by simp
  moreover have "(40 * int level + 51) div 102 \<le> 100" using assms by simp
  ultimately show ?thesis by (simp add: levelPercent_exact(2) [OF le])
qed

lemma scalePercent_ties:
  "scalePercent 10 = 26" "scalePercent 30 = 77" "scalePercent 50 = 128"
  "scalePercent 70 = 179" "scalePercent 90 = 230"
  by code_simp+

lemma scalePercent_tie_inputs:
  "\<forall>p \<in> set [0..<101]. (51 * int p + 10) mod 20 = 0 \<longrightarrow> p \<in> set [10, 30, 50, 70, 90]"
  by code_simp

lemma scalePercent_exact:
  assumes "p \<le> 100"
  shows "scalePercent (of_nat p) = round (of_nat p * 255 / 100 :: rat)"
    and "scalePercent (of_nat p) = (51 * int p + 10) div 20"
proof -
  let ?z = "of_nat p * 255 / 100 :: rat"
  have zhalf: "?z + 1 / 2 = of_int (51 * int p + 10) / of_int 20"
    by (simp add: field_simps)
  have main: "scalePercent (of_nat p) = (51 * int p + 10) div 20"
  proof (cases "(51 * int p + 10) mod 20 = 0")
    case True
    from assms have mem: "p \<in> set [0..<101]" by simp
    have "p \<in> set [10, 30, 50, 70, 90]"
      by (rule scalePercent_tie_inputs [rule_format, OF mem True])
    then have "p = 10 \<or> p = 30 \<or> p = 50 \<or> p = 70 \<or> p = 90" by simp
    then show ?thesis using scalePercent_ties by auto
  next
    case tie: False
    show ?thesis
    proof (cases "p = 0")
      case True
      then show ?thesis by (simp add: scalePercent_zero)
    next
      case False
      let ?x = "of_nat p / 100 :: rat"
      from False have xpos: "0 < ?x" by simp
      have "pow2 (- 1021) \<le> 1 / 100" by (simp add: pow2_def)
      also have "\<dots> \<le> ?x" using False by (simp add: divide_right_mono)
      finally have xlow: "pow2 (- 1021) \<le> ?x" .
      have err: "\<bar>toDouble (toDouble ?x * 255) - ?x * 255\<bar> \<le> 3 * (?x * 255) / 2 ^ 53"
        by (rule toDouble_twice_error [OF xpos xlow]) simp
      have "?x * 255 \<le> 255" using assms by simp
      then have "3 * (?x * 255) / 2 ^ 53 \<le> 765 / 2 ^ 53" by (simp add: divide_right_mono)
      also have "\<dots> < 1 / of_int 20" by simp
      finally have small: "3 * (?x * 255) / 2 ^ 53 < 1 / of_int 20" .
      have eq: "?x * 255 = ?z" by simp
      from err small have close: "\<bar>toDouble (toDouble ?x * 255) - ?z\<bar> < 1 / of_int 20"
        unfolding eq by (rule le_less_trans)
      show ?thesis
        unfolding scalePercent_def
        by (rule mathRound_stable [OF _ zhalf tie close]) simp
    qed
  qed
  show "scalePercent (of_nat p) = (51 * int p + 10) div 20" by (rule main)
  have "round ?z = (51 * int p + 10) div 20"
    unfolding round_def zhalf by (simp only: floor_divide_of_int_eq)
  with main show "scalePercent (of_nat p) = round ?z" by simp
qed

text \<open>Whole numbers below \<open>2^53\<close> are doubles, and reading one gives that number.\<close>

lemma roundTiesToEven_of_int: "roundTiesToEven (of_int k) = k"
  by (simp add: roundTiesToEven_def)

lemma toDouble_of_nat:
  assumes "n < 2 ^ 53"
  shows "toDouble (of_nat n) = of_nat n"
proof (cases "n = 0")
  case True
  then show ?thesis by (simp add: toDouble_def)
next
  case False
  let ?x = "of_nat n :: rat"
  let ?b = "binade ?x"
  from False have xpos: "0 < ?x" by simp
  from binade_bounds [OF xpos] have b: "pow2 ?b \<le> ?x" "?x < pow2 (?b + 1)" by simp_all
  have "?x < 2 ^ 53" using assms by (metis of_nat_less_iff of_nat_numeral of_nat_power)
  then have "?x < pow2 53" by (simp add: pow2_def)
  with b(1) have "pow2 ?b < pow2 53" by simp
  then have b52: "?b \<le> 52" using pow2_less_imp_less by fastforce
  have "1 \<le> ?x" using False by simp
  then have "pow2 0 \<le> ?x" by (simp add: pow2_def)
  with b(2) have "pow2 0 < pow2 (?b + 1)" by simp
  then have b0: "0 \<le> ?b" using pow2_less_imp_less by fastforce
  from b0 have e: "max (?b - 52) (- 1074) = ?b - 52" by simp
  define k where "k = nat (52 - ?b)"
  have pe: "pow2 (?b - 52) = 1 / 2 ^ k"
  proof (cases "?b = 52")
    case True
    then show ?thesis by (simp add: pow2_def k_def)
  next
    case False
    with b52 have "?b - 52 < 0" by simp
    then show ?thesis by (simp add: pow2_def k_def)
  qed
  have "?x / pow2 (?b - 52) = of_int (int n * 2 ^ k)"
    by (simp add: pe)
  then have m: "roundTiesToEven (?x / pow2 (?b - 52)) = int n * 2 ^ k"
    by (simp only: roundTiesToEven_of_int)
  from xpos have "toDouble ?x = of_int (int n * 2 ^ k) * pow2 (?b - 52)"
    by (simp add: toDouble_def Let_def e m del: of_int_mult of_int_power)
  then show ?thesis by (simp add: pe)
qed

lemma number_of_nat:
  assumes "n < 2 ^ 53"
  shows "number (of_nat n) = Finite (of_nat n)"
proof -
  have "(of_nat n :: rat) < 2 ^ 53" using assms by (metis of_nat_less_iff of_nat_numeral of_nat_power)
  also have "(2 ^ 53 :: rat) \<le> 2 ^ 1024" by (rule power_increasing) simp_all
  finally have small: "(of_nat n :: rat) < 2 ^ 1024" .
  have "- (2 ^ 1024) < (0::rat)" by simp
  also have "0 \<le> (of_nat n :: rat)" by simp
  finally have big: "- (2 ^ 1024) < (of_nat n :: rat)" .
  from small big show ?thesis
    by (simp add: number_def toDouble_of_nat [OF assms] not_le [symmetric] del: not_le)
qed

lemma number_numeral:
  assumes "(numeral v :: nat) < 2 ^ 53"
  shows "number (numeral v) = Finite (numeral v)"
  using number_of_nat [OF assms] by simp

lemma number_not_NaN: "number x \<noteq> NaN"
  by (simp add: number_def Let_def)

text \<open>
  Percentages with a fractional part. Three roundings lie between the decimal numeral and
  the level: reading the numeral, the division by 100 and the multiplication by 255. Each
  is off by at most half a unit in the last place of its binade, in all less than
  \<open>1 / (2 * 10^13)\<close>. With at most 12 digits after the point the exact product is either a
  tie, and then the percentage is a whole number, or at least that far from every tie.
\<close>

lemma coprime_10_51: "coprime ((10::nat) ^ d) 51"
proof -
  have "coprime (10::nat) 51" by (simp add: coprime_iff_gcd_eq_1 gcd_nat.simps)
  then show ?thesis by simp
qed

lemma clamp_close:
  fixes x v :: rat
  assumes "0 \<le> v" "v \<le> 100"
  shows "\<bar>max 0 (min 100 x) - v\<bar> \<le> \<bar>x - v\<bar>"
  using assms by (auto simp: max_def min_def abs_le_iff)

lemma pow2_mono: "a \<le> b \<Longrightarrow> pow2 a \<le> pow2 b"
  unfolding pow2_powi by (rule power_int_increasing) simp_all

lemma toDouble_error_binade:
  assumes "0 < x" "x < pow2 (b + 1)" "- 1022 \<le> b"
  shows "\<bar>toDouble x - x\<bar> \<le> pow2 (b - 53)"
proof -
  from binade_bounds [OF assms(1)] have "pow2 (binade x) \<le> x" by simp
  with assms(2) have "pow2 (binade x) < pow2 (b + 1)" by simp
  then have bb: "binade x \<le> b" using pow2_less_imp_less by fastforce
  define e where "e = max (binade x - 52) (- 1074)"
  from bb assms(3) have ele: "e \<le> b - 52" by (simp add: e_def)
  let ?m = "roundTiesToEven (x / pow2 e)"
  from assms(1) have td: "toDouble x = of_int ?m * pow2 e"
    by (simp add: toDouble_def Let_def e_def)
  have pe: "0 < pow2 e" by (rule pow2_pos)
  have "\<bar>of_int ?m * pow2 e - x\<bar> = \<bar>of_int ?m - x / pow2 e\<bar> * pow2 e"
  proof -
    have "of_int ?m * pow2 e - x = (of_int ?m - x / pow2 e) * pow2 e"
      using pe by (simp add: field_simps)
    then show ?thesis using pe by (simp add: abs_mult)
  qed
  also have "\<dots> \<le> 1 / 2 * pow2 e"
    using roundTiesToEven_error [of "x / pow2 e"] pe by (simp add: mult_right_mono less_imp_le)
  also have "\<dots> \<le> 1 / 2 * pow2 (b - 52)"
    using pow2_mono [OF ele] by simp
  also have "\<dots> = pow2 (b - 53)"
  proof -
    have "pow2 (b - 52) = pow2 (b - 53) * pow2 1" by (simp add: pow2_add [symmetric])
    then show ?thesis by (simp add: pow2_def)
  qed
  finally show ?thesis by (simp only: td)
qed

lemma scalePercent_decimal:
  fixes n d :: nat
  defines "v \<equiv> of_nat n / 10 ^ d :: rat"
  assumes "d \<le> 12" "v \<le> 100"
  shows "scalePercent (clampPercent (number v)) = round (v * 255 / 100)"
proof (cases "10 ^ d dvd n")
  case True
  then obtain p where n: "n = 10 ^ d * p" by (rule dvdE)
  then have v: "v = of_nat p" by (simp add: v_def)
  with assms(3) have "(of_nat p :: rat) \<le> of_nat 100" by simp
  then have p: "p \<le> 100" by (simp only: of_nat_le_iff)
  then have "p < 2 ^ 53" by simp
  then have "number (of_nat p) = Finite (of_nat p)" by (rule number_of_nat)
  moreover from p have "clampPercent (Finite (of_nat p)) = of_nat p" by (simp add: clampPercent_def)
  ultimately show ?thesis by (simp add: v scalePercent_exact(1) [OF p])
next
  case False
  then have npos: "0 < n" by (cases n) simp_all
  have ten: "(10::rat) ^ d \<le> 10 ^ 12" using assms(2) by (intro power_increasing) simp_all
  have vpos: "0 < v" using npos by (simp add: v_def)
  have vlow: "1 / 10 ^ 12 \<le> v"
  proof -
    have "1 / 10 ^ 12 \<le> 1 / (10::rat) ^ d" using ten by (simp add: frac_le)
    also have "\<dots> \<le> of_nat n / 10 ^ d" using npos by (simp add: divide_right_mono)
    finally show ?thesis by (simp add: v_def)
  qed
  define e1 :: rat where "e1 = 1 / 2 ^ 47"
  define e2 :: rat where "e2 = 1 / 2 ^ 54"
  define e3 :: rat where "e3 = 1 / 2 ^ 46"
  let ?x = "toDouble v"
  have "v < pow2 (6 + 1)" using assms(3) by (simp add: pow2_def)
  from toDouble_error_binade [OF vpos this] have ex: "\<bar>?x - v\<bar> \<le> e1"
    by (simp add: pow2_def e1_def)
  then have xlo: "v - e1 \<le> ?x" and xhi: "?x \<le> v + e1" by linarith+
  from xhi assms(3) have "?x \<le> 101" by (simp add: e1_def)
  then have "\<not> 2 ^ 1024 \<le> ?x" by simp
  moreover from xlo vlow have "0 < ?x" by (simp add: e1_def)
  then have "\<not> ?x \<le> - (2 ^ 1024)" by simp
  ultimately have num: "number v = Finite ?x" by (simp add: number_def Let_def)
  define c where "c = max 0 (min 100 ?x)"
  have clamp: "clampPercent (number v) = c" by (simp add: num clampPercent_def c_def)
  from vpos assms(3) have "\<bar>c - v\<bar> \<le> \<bar>?x - v\<bar>" unfolding c_def by (intro clamp_close) simp_all
  with ex have ec: "\<bar>c - v\<bar> \<le> e1" by simp
  have c100: "c \<le> 100" by (simp add: c_def)
  from ec have "v - e1 \<le> c" by linarith
  with vlow have clow: "1 / 10 ^ 12 - e1 \<le> c" by simp
  then have cpos: "0 < c" by (simp add: e1_def)
  define w where "w = c / 100"
  from cpos have wpos: "0 < w" by (simp add: w_def)
  from c100 have w1: "w \<le> 1" by (simp add: w_def)
  from clow have wlow: "(1 / 10 ^ 12 - e1) / 100 \<le> w"
    unfolding w_def by (rule divide_right_mono) simp
  let ?w' = "toDouble w"
  have ew: "\<bar>?w' - w\<bar> \<le> e2"
  proof (cases "w = 1")
    case True
    have "toDouble (of_nat 1) = of_nat 1" by (rule toDouble_of_nat) simp
    with True show ?thesis by (simp add: e2_def)
  next
    case False
    with w1 have "w < pow2 (- 1 + 1)" by (simp add: pow2_def)
    from toDouble_error_binade [OF wpos this] show ?thesis by (simp add: pow2_def e2_def)
  qed
  then have w'lo: "w - e2 \<le> ?w'" and w'hi: "?w' \<le> w + e2" by linarith+
  from w'lo wlow have w'pos: "0 < ?w'" by (simp add: e1_def e2_def)
  define y where "y = ?w' * 255"
  from w'pos have ypos: "0 < y" by (simp add: y_def)
  from w'hi w1 have "y < pow2 (7 + 1)" by (simp add: y_def pow2_def e2_def)
  from toDouble_error_binade [OF ypos this] have ey: "\<bar>toDouble y - y\<bar> \<le> e3"
    by (simp add: pow2_def e3_def)
  define z where "z = v * 255 / 100"
  have "\<bar>y - z\<bar> \<le> \<bar>?w' - w\<bar> * 255 + \<bar>c - v\<bar> * (255 / 100)"
  proof -
    have "y - z = (?w' - w) * 255 + (c - v) * (255 / 100)"
      by (simp add: y_def z_def w_def field_simps)
    then have "\<bar>y - z\<bar> \<le> \<bar>(?w' - w) * 255\<bar> + \<bar>(c - v) * (255 / 100)\<bar>"
      by (simp only: abs_triangle_ineq)
    then show ?thesis unfolding abs_mult by simp
  qed
  also have "\<dots> \<le> e2 * 255 + e1 * (255 / 100)"
    by (intro add_mono mult_right_mono ew ec) simp_all
  finally have eyz: "\<bar>y - z\<bar> \<le> e2 * 255 + e1 * (255 / 100)" .
  have "\<bar>toDouble y - z\<bar> \<le> \<bar>toDouble y - y\<bar> + \<bar>y - z\<bar>" by simp
  with ey eyz have e3: "\<bar>toDouble y - z\<bar> \<le> e3 + (e2 * 255 + e1 * (255 / 100))"
    by linarith
  let ?a = "int (51 * n + 10 * 10 ^ d)" and ?b = "int (20 * 10 ^ d)"
  have bpos: "0 < ?b" by simp
  have zhalf: "z + 1 / 2 = of_int ?a / of_int ?b"
    by (simp add: z_def v_def field_simps)
  have tie: "?a mod ?b \<noteq> 0"
  proof
    assume "?a mod ?b = 0"
    then have "(51 * n + 10 * 10 ^ d) mod (20 * 10 ^ d) = 0"
      by (simp only: zmod_int [symmetric] of_nat_eq_0_iff)
    then have "20 * 10 ^ d dvd 51 * n + 10 * 10 ^ d" by (simp only: dvd_eq_mod_eq_0)
    moreover have "(10::nat) ^ d dvd 20 * 10 ^ d" by simp
    ultimately have "10 ^ d dvd 51 * n + 10 * 10 ^ d" by (rule dvd_trans [rotated])
    then have "10 ^ d dvd 51 * n" by (simp add: dvd_add_left_iff)
    then have "10 ^ d dvd n * 51" by (simp add: mult.commute)
    with coprime_10_51 [of d] have "10 ^ d dvd n"
      by (simp only: coprime_dvd_mult_left_iff)
    with False show False by simp
  qed
  have "e3 + (e2 * 255 + e1 * (255 / 100)) < 1 / (of_int ?b :: rat)"
  proof -
    have "(of_int ?b :: rat) = 20 * 10 ^ d" by simp
    also have "\<dots> \<le> 20 * 10 ^ 12" using ten by simp
    finally have "1 / (20 * 10 ^ 12) \<le> 1 / (of_int ?b :: rat)"
      using bpos by (intro frac_le) simp_all
    moreover have "e3 + (e2 * 255 + e1 * (255 / 100)) < 1 / (20 * 10 ^ 12)"
      by (simp add: e1_def e2_def e3_def)
    ultimately show ?thesis by (rule less_le_trans [rotated])
  qed
  with e3 have close: "\<bar>toDouble y - z\<bar> < 1 / of_int ?b" by (rule le_less_trans)
  have "mathRound (toDouble y) = ?a div ?b"
    by (rule mathRound_stable [OF bpos zhalf tie close])
  moreover have "round z = ?a div ?b"
    unfolding round_def zhalf by (simp only: floor_divide_of_int_eq)
  ultimately show ?thesis by (simp add: clamp scalePercent_def y_def w_def z_def)
qed

text \<open>
  Evaluating \<open>toDouble\<close> at a given number: the binade and the rounded significand are
  supplied and checked.
\<close>

lemma roundTiesToEven_eval:
  assumes "of_int m - 1 / 2 < y" "y < of_int m + 1 / 2"
  shows "roundTiesToEven y = m"
proof (cases "y < of_int m")
  case True
  with assms(1) have "\<lfloor>y\<rfloor> = m - 1" by (intro floor_unique) simp_all
  with assms(1) show ?thesis by (simp add: roundTiesToEven_def Let_def)
next
  case False
  with assms(2) have "\<lfloor>y\<rfloor> = m" by (intro floor_unique) simp_all
  with assms(2) show ?thesis by (simp add: roundTiesToEven_def Let_def)
qed

lemma binade_eq:
  assumes "pow2 b \<le> x" "x < pow2 (b + 1)"
  shows "binade x = b"
proof -
  from assms(1) pow2_pos [of b] have xpos: "0 < x" by simp
  from binade_bounds [OF xpos] have bb: "pow2 (binade x) \<le> x" "x < pow2 (binade x + 1)" by simp_all
  from bb(1) assms(2) have "pow2 (binade x) < pow2 (b + 1)" by simp
  then have "binade x < b + 1" by (rule pow2_less_imp_less)
  moreover from assms(1) bb(2) have "pow2 b < pow2 (binade x + 1)" by simp
  then have "b < binade x + 1" by (rule pow2_less_imp_less)
  ultimately show ?thesis by simp
qed

lemma toDouble_eval:
  assumes "pow2 b \<le> x" "x < pow2 (b + 1)" "- 1022 \<le> b"
    and "of_int m - 1 / 2 < x / pow2 (b - 52)" "x / pow2 (b - 52) < of_int m + 1 / 2"
  shows "toDouble x = of_int m * pow2 (b - 52)"
proof -
  from assms(1) pow2_pos [of b] have xpos: "0 < x" by simp
  have b: "binade x = b" by (rule binade_eq [OF assms(1,2)])
  from assms(3) have e: "max (b - 52) (- 1074) = b - 52" by simp
  have m: "roundTiesToEven (x / pow2 (b - 52)) = m" by (rule roundTiesToEven_eval [OF assms(4,5)])
  from xpos show ?thesis by (simp add: toDouble_def Let_def b e m)
qed

text \<open>
  The percentage 29.6078431372549: the exact product with 255/100 is
  75.499999999999995, just below the tie, and the double product is 75.5.
\<close>

lemma near_tie_steps:
  "toDouble (296078431372549 / 10 ^ 13) = 8333866957511579 / 2 ^ 48"
  "toDouble (8333866957511579 / 2 ^ 48 / 100) = 5333674852807411 / 2 ^ 54"
  "toDouble (5333674852807411 / 2 ^ 54 * 255) = 151 / 2"
proof -
  have "toDouble (296078431372549 / 10 ^ 13) = of_int 8333866957511579 * pow2 (4 - 52)"
    by (rule toDouble_eval) (simp_all add: pow2_def)
  then show "toDouble (296078431372549 / 10 ^ 13) = 8333866957511579 / 2 ^ 48"
    by (simp add: pow2_def)
  have "toDouble (8333866957511579 / 2 ^ 48 / 100) = of_int 5333674852807411 * pow2 (- 2 - 52)"
    by (rule toDouble_eval) (simp_all add: pow2_def)
  then show "toDouble (8333866957511579 / 2 ^ 48 / 100) = 5333674852807411 / 2 ^ 54"
    by (simp add: pow2_def)
  have "toDouble (5333674852807411 / 2 ^ 54 * 255) = of_int 5312840185413632 * pow2 (6 - 52)"
    by (rule toDouble_eval) (simp_all add: pow2_def)
  then show "toDouble (5333674852807411 / 2 ^ 54 * 255) = 151 / 2"
    by (simp add: pow2_def)
qed

lemma near_tie_level:
  "scalePercent (clampPercent (number (296078431372549 / 10 ^ 13))) = 76"
  "round (296078431372549 / 10 ^ 13 * 255 / 100 :: rat) = 75"
proof -
  have n: "number (296078431372549 / 10 ^ 13) = Finite (8333866957511579 / 2 ^ 48)"
    unfolding number_def Let_def near_tie_steps(1) by simp
  have c: "clampPercent (Finite (8333866957511579 / 2 ^ 48)) = 8333866957511579 / 2 ^ 48"
    by (simp add: clampPercent_def)
  show "scalePercent (clampPercent (number (296078431372549 / 10 ^ 13))) = 76"
    unfolding n c scalePercent_def near_tie_steps(2,3) by (simp add: mathRound_def)
  show "round (296078431372549 / 10 ^ 13 * 255 / 100 :: rat) = 75"
    unfolding round_def by (rule floor_unique) simp_all
qed

section \<open>JavaScript strings: proofs\<close>

lemma trim_id:
  assumes "s \<noteq> []" "\<not> isSpace (hd s)" "\<not> isSpace (last s)"
  shows "trim s = s"
proof -
  from assms(2) have a: "dropWhile isSpace s = s" by (simp add: dropWhile_eq_self_iff)
  from assms(1,3) have "\<not> isSpace (hd (rev s))" by (simp add: hd_rev)
  then have b: "dropWhile isSpace (rev s) = rev s" by (simp add: dropWhile_eq_self_iff)
  show ?thesis by (simp add: trim_def a b)
qed

lemma digit_table:
  "\<forall>d \<in> set [0..<10]. plainDigit (''0123456789'' ! d) \<and> digitValue (''0123456789'' ! d) = d"
  by code_simp

lemma digitChar_facts: "plainDigit (digitChar d)" "digitValue (digitChar d) = d mod 10"
proof -
  have "d mod 10 \<in> set [0..<10]" by simp
  from digit_table [rule_format, OF this]
  show "plainDigit (digitChar d)" "digitValue (digitChar d) = d mod 10"
    unfolding digitChar_def by blast+
qed

lemma natToString_digits: "list_all plainDigit (natToString n) \<and> natToString n \<noteq> []"
proof (induction n rule: natToString.induct)
  case (1 n)
  show ?case
  proof (cases "n < 10")
    case True
    then show ?thesis
      by (subst (1 2) natToString.simps) (simp add: digitChar_facts)
  next
    case False
    with 1 have "list_all plainDigit (natToString (n div 10))" by simp
    with False show ?thesis
      by (subst (1 2) natToString.simps) (simp add: digitChar_facts)
  qed
qed

lemma parseDigits_snoc: "parseDigits (s @ [c]) = 10 * parseDigits s + digitValue c"
  by (simp add: parseDigits_def)

lemma parseDigits_natToString: "parseDigits (natToString n) = n"
proof (induction n rule: natToString.induct)
  case (1 n)
  show ?case
  proof (cases "n < 10")
    case True
    then show ?thesis
      by (subst natToString.simps) (simp add: parseDigits_def digitChar_facts)
  next
    case False
    with 1 have ih: "parseDigits (natToString (n div 10)) = n div 10" by simp
    from False show ?thesis
      by (subst natToString.simps) (simp add: parseDigits_snoc ih digitChar_facts)
  qed
qed

lemma plain_digits:
  assumes "list_all plainDigit s"
  shows "takeWhile isDigit s = s" "dropWhile isDigit s = []" "dropWhile isSpace s = s \<or> s = []"
    "toUpperCase s = s" "CHR '','' \<notin> set s" "trim s = s"
proof -
  from assms have all: "\<And>c. c \<in> set s \<Longrightarrow> plainDigit c" by (simp add: list_all_iff)
  show "takeWhile isDigit s = s" using all by (simp add: takeWhile_eq_all_conv plainDigit_def)
  show "dropWhile isDigit s = []" using all by (simp add: plainDigit_def)
  show sp: "dropWhile isSpace s = s \<or> s = []"
    using all by (cases s) (auto simp: plainDigit_def)
  show "toUpperCase s = s"
    using all by (simp add: toUpperCase_def map_idI plainDigit_def)
  show "CHR '','' \<notin> set s" using all by (auto simp: plainDigit_def)
  show "trim s = s"
  proof (cases "s = []")
    case True
    then show ?thesis by (simp add: trim_def)
  next
    case False
    then have "hd s \<in> set s" "last s \<in> set s" by simp_all
    with all have "\<not> isSpace (hd s)" "\<not> isSpace (last s)" by (auto simp: plainDigit_def)
    with False show ?thesis by (intro trim_id)
  qed
qed

lemma plain_digits_head:
  assumes "list_all plainDigit s" "s \<noteq> []"
  shows "\<not> startsWith s ''-''" "\<not> startsWith s ''+''" "\<not> startsWith s ''Infinity''"
    "s \<noteq> ''ON''" "s \<noteq> ''OFF''" "s \<noteq> ''INCREASE''" "s \<noteq> ''DECREASE''"
proof -
  from assms obtain c cs where s: "s = c # cs" and c: "plainDigit c"
    by (cases s) auto
  from c have n: "c \<noteq> CHR ''-''" "c \<noteq> CHR ''+''" "c \<noteq> CHR ''I''" "c \<noteq> CHR ''O''" "c \<noteq> CHR ''D''"
    by (auto simp: plainDigit_def)
  show "\<not> startsWith s ''-''" "\<not> startsWith s ''+''" "\<not> startsWith s ''Infinity''"
    "s \<noteq> ''ON''" "s \<noteq> ''OFF''" "s \<noteq> ''INCREASE''" "s \<noteq> ''DECREASE''"
    using n by (auto simp: s startsWith_def)
qed

lemma split_absent: "sep \<notin> set s \<Longrightarrow> split sep s = [s]"
  by (induction s) auto

text \<open>
  Decimal numerals: every digit is a plain payload character, the digits denote the number
  that \<open>parseDigits\<close> computes, and \<open>parseFloat\<close> reads a numeral with or without a
  fractional part as the double nearest to the number it denotes.
\<close>

lemma digits_plain: "isDigit c \<Longrightarrow> plainDigit c"
proof -
  have "\<forall>c \<in> set ''0123456789''. plainDigit c" by code_simp
  then show "isDigit c \<Longrightarrow> plainDigit c" by (simp only: isDigit_def)
qed

lemma dot_no_digit: "\<not> isDigit CHR ''.''"
  by code_simp

lemma digitValue_code: "isDigit c \<Longrightarrow> digitValue c = of_char c - 48"
proof -
  have "\<forall>c \<in> set ''0123456789''. digitValue c = of_char c - 48" by code_simp
  then show "isDigit c \<Longrightarrow> digitValue c = of_char c - 48" by (simp only: isDigit_def)
qed

lemma foldl_digits:
  "list_all isDigit s \<Longrightarrow>
     foldl (\<lambda>acc c. 10 * acc + (of_char c - 48)) a s = foldl (\<lambda>acc c. 10 * acc + digitValue c) a s"
  by (induction s arbitrary: a) (simp_all add: digitValue_code)

lemma decimalValue_parseDigits:
  assumes "list_all isDigit ip" "list_all isDigit fp"
  shows "decimalValue ip fp = of_nat (parseDigits (ip @ fp)) / 10 ^ length fp"
proof -
  from assms have "list_all isDigit (ip @ fp)" by simp
  from foldl_digits [OF this] show ?thesis by (simp only: decimalValue_def parseDigits_def)
qed

lemma decimalValue_natToString: "decimalValue (natToString n) [] = of_nat n"
proof -
  from natToString_digits [of n] have "list_all isDigit (natToString n)"
    by (simp add: list_all_iff plainDigit_def)
  then have "decimalValue (natToString n) [] = of_nat (parseDigits (natToString n @ [])) / 10 ^ length ([]::string)"
    by (intro decimalValue_parseDigits) simp_all
  then show ?thesis by (simp add: parseDigits_natToString)
qed

lemma parseFloat_decimal:
  assumes "list_all isDigit ip" "ip \<noteq> []" "list_all isDigit fp"
  shows "parseFloat (ip @ ''.'' @ fp) = number (of_nat (parseDigits (ip @ fp)) / 10 ^ length fp)"
proof -
  define s where "s = ip @ ''.'' @ fp"
  from assms(1) have pi: "list_all plainDigit ip" by (simp add: list_all_iff digits_plain)
  from assms(2) obtain c cs where ip: "ip = c # cs" by (cases ip) auto
  with pi have c: "plainDigit c" by simp
  then have sp: "dropWhile isSpace s = s" by (simp add: s_def ip plainDigit_def)
  from c have h: "\<not> startsWith s ''-''" "\<not> startsWith s ''+''" "\<not> startsWith s ''Infinity''"
    by (auto simp: s_def ip startsWith_def plainDigit_def)
  from assms(1) have tw: "takeWhile isDigit s = ip" "dropWhile isDigit s = CHR ''.'' # fp"
    by (simp_all add: s_def list_all_iff takeWhile_append2 dropWhile_append2 dot_no_digit)
  have dot: "startsWith (CHR ''.'' # fp) ''.''" by (simp add: startsWith_def)
  from assms(3) have fw: "takeWhile isDigit fp = fp" "dropWhile isDigit fp = []"
    by (simp_all add: list_all_iff takeWhile_eq_all_conv)
  have "parseFloat s = number (of_nat (parseDigits (ip @ fp)) / 10 ^ length fp)"
    unfolding parseFloat_def Let_def sp
    using assms(2) by (simp add: h tw dot fw exponentPart_def pow10_def)
  then show ?thesis by (simp only: s_def)
qed

lemma parseFloat_digits:
  assumes "list_all isDigit ip" "ip \<noteq> []"
  shows "parseFloat ip = number (of_nat (parseDigits ip))"
proof -
  from assms(1) have d: "list_all plainDigit ip" by (simp add: list_all_iff digits_plain)
  from plain_digits(3) [OF d] assms(2) have sp: "dropWhile isSpace ip = ip" by simp
  note h = plain_digits_head [OF d assms(2)]
  note p = plain_digits [OF d]
  have dot: "\<not> startsWith [] ''.''" by (simp add: startsWith_def)
  show ?thesis
    unfolding parseFloat_def Let_def sp
    by (simp add: h p assms(2) dot exponentPart_def pow10_def)
qed

lemma parseFloat_numeral:
  assumes "list_all isDigit ip" "ip \<noteq> []" "list_all isDigit fp"
  shows "parseFloat (ip @ (if fp = [] then [] else ''.'' @ fp)) = number (decimalValue ip fp)"
proof (cases "fp = []")
  case True
  with parseFloat_digits [OF assms(1,2)] decimalValue_parseDigits [OF assms(1,3)]
  show ?thesis by simp
next
  case False
  with parseFloat_decimal [OF assms] decimalValue_parseDigits [OF assms(1,3)]
  show ?thesis by simp
qed

section \<open>Command response processor: proofs\<close>

lemma indexOf_first: "c \<notin> set pre \<Longrightarrow> indexOf c (pre @ c # post) = Some (length pre)"
  by (induction pre) auto

lemma indexOf_absent: "c \<notin> set s \<Longrightarrow> indexOf c s = None"
  by (induction s) auto

lemma split_first: "sep \<notin> set pre \<Longrightarrow> split sep (pre @ sep # post) = pre # split sep post"
  by (induction pre) auto

lemma split_nonempty: "split sep s \<noteq> []"
  by (induction s) (auto split: list.splits)

lemma join_split: "join sep (split sep s) = s"
proof (induction s)
  case Nil
  then show ?case by simp
next
  case (Cons c cs)
  obtain p ps where ps: "split sep cs = p # ps"
    using split_nonempty [of sep cs] by (cases "split sep cs") auto
  with Cons show ?case by (cases ps) auto
qed

lemma isResponseCode_nonempty: "isResponseCode s \<Longrightarrow> s \<noteq> []"
  by (auto simp: isResponseCode_def)

text \<open>
  The two branches of \<open>_parseCommandResponseLine\<close>. A hyphen that is not the last
  character selects the hyphen branch, whatever stands in front of it; the space branch is
  left for a line without a hyphen or with its first hyphen at the very end.
\<close>

lemma parse_hyphen:
  assumes "line = pre @ CHR ''-'' # post" "CHR ''-'' \<notin> set pre" "post \<noteq> []"
  shows "parseCommandResponseLine line =
           (if isResponseCode (trim pre) then Some (trim pre, trim post) else None)"
proof -
  from assms(1,2) have ix: "indexOf CHR ''-'' line = Some (length pre)"
    by (simp add: indexOf_first)
  from assms(1,3) have len: "Suc (length pre) < length line"
    by (cases post) simp_all
  from assms(1) have parts: "take (length pre) line = pre" "drop (Suc (length pre)) line = post"
    by simp_all
  show ?thesis
    using isResponseCode_nonempty [of "trim pre"]
    by (auto simp: parseCommandResponseLine_def ix len parts)
qed

lemma parse_space:
  assumes "indexOf CHR ''-'' line = None \<or> indexOf CHR ''-'' line = Some (length line - 1)"
    and "line = code @ CHR '' '' # rest" "CHR '' '' \<notin> set code"
  shows "parseCommandResponseLine line =
           (if isResponseCode (trim code) then Some (trim code, trim rest) else None)"
proof -
  from assms(2,3) have sp: "split CHR '' '' line = code # split CHR '' '' rest"
    by (simp add: split_first)
  have more: "length (code # split CHR '' '' rest) > 1"
    using split_nonempty [of "CHR '' ''" rest] by (cases "split CHR '' '' rest") auto
  have rest: "join CHR '' '' (split CHR '' '' rest) = rest" by (rule join_split)
  from assms(2) have ne: "line \<noteq> []" by simp
  from assms(1) show ?thesis
  proof
    assume "indexOf CHR ''-'' line = None"
    then show ?thesis
      using isResponseCode_nonempty [of "trim code"] more
      by (auto simp: parseCommandResponseLine_def sp rest)
  next
    assume ix: "indexOf CHR ''-'' line = Some (length line - 1)"
    from ne have "\<not> length line > (length line - 1) + 1" by simp
    then show ?thesis
      using isResponseCode_nonempty [of "trim code"] more
      by (auto simp: parseCommandResponseLine_def ix sp rest simp del: One_nat_def)
  qed
qed

lemma parse_accepts_codes: "parseCommandResponseLine line = Some (c, d) \<Longrightarrow> isResponseCode c"
  by (auto simp: parseCommandResponseLine_def Let_def split: option.splits if_splits prod.splits)

text \<open>
  Claim C7 on the code. The line \<open>401 Bad C-Bus object\<close> is space-separated, not of the
  form \<open><digits>-<rest>\<close>, and the rule of the specification finds the code \<open>401\<close>, which
  is handed to the error handler. The code splits the line at the hyphen inside its
  payload, finds \<open>401 Bad C\<close> in front of it, and skips the line, so no handler sees the
  error. The same line without the hyphen, and the same line in the hyphen format, reach
  the error handler.
\<close>

theorem hyphen_in_payload_drops_response:
  "parseCommandResponseLine ''401 Bad C-Bus object'' = None
   \<and> processLine ''401 Bad C-Bus object'' = None
   \<and> spec_splitResponseLine ''401 Bad C-Bus object'' = Some (''401'', ''Bad C-Bus object'')
   \<and> processCommandResponse ''401'' ''Bad C-Bus object'' = ErrorResponse ''401'' ''Bad C-Bus object''
   \<and> processLine ''401 Bad object'' = Some (ErrorResponse ''401'' ''Bad object'')
   \<and> processLine ''401-Bad C-Bus object'' = Some (ErrorResponse ''401'' ''Bad C-Bus object'')
   \<and> processLine ''200 OK - done'' = None"
  by code_simp

section \<open>Level scaling and published levels: proofs\<close>

lemma numberToString_nonneg: "0 \<le> n \<Longrightarrow> numberToString n = natToString (nat n)"
  by (simp add: numberToString_def)

lemma eventLevelPercent_range:
  assumes "\<forall>l. ev_level event = Some l \<longrightarrow> l \<le> 255"
  shows "0 \<le> eventLevelPercent event \<and> eventLevelPercent event \<le> 100"
proof (cases "ev_level event")
  case None
  then show ?thesis by (simp add: eventLevelPercent_def)
next
  case (Some l)
  with assms have "l \<le> 255" by simp
  from levelPercent_range [OF this] Some show ?thesis by (simp add: eventLevelPercent_def)
qed

lemma ramp_payload_level:
  assumes "list_all isDigit ip" "ip \<noteq> []" "list_all isDigit fp"
    and "time = [] \<or> hd time = CHR '',''"
    and "cmd_commandType c = Some ''ramp''"
    and "cmd_payload c = ip @ (if fp = [] then [] else ''.'' @ fp) @ time"
  shows "cmd_level (parsePayload c)
           = Some (LevelNumber (scalePercent (clampPercent (number (decimalValue ip fp)))))"
proof -
  define lv where "lv = ip @ (if fp = [] then [] else ''.'' @ fp)"
  from assms(1) have pi: "list_all plainDigit ip" by (simp add: list_all_iff digits_plain)
  from assms(3) have pf: "list_all plainDigit fp" by (simp add: list_all_iff digits_plain)
  from assms(2) obtain d ds where ip: "ip = d # ds" by (cases ip) auto
  with pi have d: "plainDigit d" by simp
  have pl: "cmd_payload c = lv @ time" by (simp add: assms(6) lv_def)
  have nocomma: "CHR '','' \<notin> set lv"
    using plain_digits(5) [OF pi] plain_digits(5) [OF pf] by (simp add: lv_def)
  have lvne: "lv \<noteq> []" using assms(2) by (simp add: lv_def)
  have "hd lv = d" by (simp add: lv_def ip)
  with d have hdl: "\<not> isSpace (hd lv)" by (simp add: plainDigit_def)
  have "last lv \<in> set ip \<union> set fp"
    using assms(2) by (cases "fp = []") (simp_all add: lv_def)
  with pi pf have "plainDigit (last lv)" by (auto simp: list_all_iff)
  then have lastl: "\<not> isSpace (last lv)" by (simp add: plainDigit_def)
  have tr: "trim lv = lv" by (rule trim_id [OF lvne hdl lastl])
  have hdsplit: "hd (split CHR '','' (lv @ time)) = lv"
  proof (cases time)
    case Nil
    then show ?thesis by (simp add: split_absent [OF nocomma])
  next
    case (Cons t ts)
    with assms(4) have "time = CHR '','' # ts" by simp
    then show ?thesis by (simp add: split_first [OF nocomma])
  qed
  have pf: "parseFloat lv = number (decimalValue ip fp)"
    unfolding lv_def by (rule parseFloat_numeral [OF assms(1-3)])
  have up: "toUpperCase (lv @ time) = d # toUpperCase (ds @ (if fp = [] then [] else ''.'' @ fp) @ time)"
    using d by (simp add: lv_def ip toUpperCase_def plainDigit_def)
  from d have dn: "d \<noteq> CHR ''O''" "d \<noteq> CHR ''I''" "d \<noteq> CHR ''D''" by (auto simp: plainDigit_def)
  have "parsePayload c = parseRampLevelAndTime c"
    using dn by (simp add: parsePayload_def parseRampPayload_def assms(5) pl up Let_def)
  then show ?thesis
    by (simp add: parseRampLevelAndTime_def Let_def pl hdsplit tr pf number_not_NaN
          split: option.splits)
qed

lemma ramp_payload_decimal:
  assumes "list_all isDigit ip" "ip \<noteq> []" "list_all isDigit fp" "length fp \<le> 12"
    and "decimalValue ip fp \<le> 100"
    and "time = [] \<or> hd time = CHR '',''"
    and "cmd_commandType c = Some ''ramp''"
    and "cmd_payload c = ip @ (if fp = [] then [] else ''.'' @ fp) @ time"
  shows "cmd_level (parsePayload c)
           = Some (LevelNumber (round (decimalValue ip fp * 255 / 100)))"
proof -
  note v = decimalValue_parseDigits [OF assms(1,3)]
  from assms(5) have le: "of_nat (parseDigits (ip @ fp)) / 10 ^ length fp \<le> (100::rat)"
    by (simp only: v)
  from scalePercent_decimal [OF assms(4) le]
  have "scalePercent (clampPercent (number (decimalValue ip fp)))
      = round (decimalValue ip fp * 255 / 100)"
    by (simp only: v)
  with ramp_payload_level [OF assms(1-3) assms(6-8)] show ?thesis by simp
qed

lemma publishEvent_level:
  assumes "ev_isValid event" "ev_level event = Some l" "l \<le> 255"
  shows "mqttPublishQueue (publishEvent event s)
     = mqttPublishQueue s
       @ (''cbus/read/'' @ the_str (ev_network event) @ ''/'' @ the_str (ev_application event)
            @ ''/'' @ the_str (ev_group event) @ ''/state'',
          if ev_application event = ha_discovery_pir_app_id s
          then (if ev_action event = Some ''on'' then ''ON'' else ''OFF'')
          else (if 0 < round (of_nat l * 100 / 255 :: rat) then ''ON'' else ''OFF''))
       # (if ev_application event = ha_discovery_pir_app_id s then []
          else [(''cbus/read/'' @ the_str (ev_network event) @ ''/'' @ the_str (ev_application event)
                   @ ''/'' @ the_str (ev_group event) @ ''/level'',
                 natToString (nat (round (of_nat l * 100 / 255 :: rat))))])"
proof -
  define r where "r = round (of_nat l * 100 / 255 :: rat)"
  from assms(3) have "l \<le> 2 ^ 32" by simp
  from levelPercent_exact(1) [OF this] assms(2)
  have p: "eventLevelPercent event = r"
    by (simp add: eventLevelPercent_def r_def)
  have "0 \<le> r" by (simp add: r_def round_def)
  then have str: "numberToString r = natToString (nat r)"
    by (rule numberToString_nonneg)
  from assms(1,2) have "mqttPublishQueue (publishEvent event s)
     = mqttPublishQueue s
       @ (''cbus/read/'' @ the_str (ev_network event) @ ''/'' @ the_str (ev_application event)
            @ ''/'' @ the_str (ev_group event) @ ''/state'',
          if ev_application event = ha_discovery_pir_app_id s
          then (if ev_action event = Some ''on'' then ''ON'' else ''OFF'')
          else (if 0 < r then ''ON'' else ''OFF''))
       # (if ev_application event = ha_discovery_pir_app_id s then []
          else [(''cbus/read/'' @ the_str (ev_network event) @ ''/'' @ the_str (ev_application event)
                   @ ''/'' @ the_str (ev_group event) @ ''/level'',
                 natToString (nat r))])"
    by (simp add: publishEvent_def Let_def p str)
  then show ?thesis by (simp only: r_def)
qed

text \<open>
  Claim C3, as the code has it. A ramp payload that is the decimal numeral of a percentage
  \<open>p \<le> 100\<close> with at most 12 digits after the point (none for a whole percentage), with
  or without a ramp time after a comma, is converted to the C-Gate level
  \<open>round (p * 255 / 100)\<close>. A valid event with the C-Gate level \<open>l \<le> 255\<close> is published
  as a state message followed, unless its application is the PIR application, by the
  level message with the payload \<open>round (l * 100 / 255)\<close>. Both hold for the double
  arithmetic of the source; \<open>round\<close> is the nearest integer, a tie going up.
\<close>

theorem level_scaling:
  "(list_all isDigit ip \<and> ip \<noteq> [] \<and> list_all isDigit fp \<and> length fp \<le> 12
      \<and> decimalValue ip fp \<le> 100 \<and> (time = [] \<or> hd time = CHR '','')
      \<and> cmd_commandType c = Some ''ramp''
      \<and> cmd_payload c = ip @ (if fp = [] then [] else ''.'' @ fp) @ time \<longrightarrow>
    cmd_level (parsePayload c) = Some (LevelNumber (round (decimalValue ip fp * 255 / 100))))
   \<and> (ev_isValid event \<and> ev_level event = Some l \<and> l \<le> 255 \<longrightarrow>
    mqttPublishQueue (publishEvent event s)
      = mqttPublishQueue s
        @ (''cbus/read/'' @ the_str (ev_network event) @ ''/'' @ the_str (ev_application event)
             @ ''/'' @ the_str (ev_group event) @ ''/state'',
           if ev_application event = ha_discovery_pir_app_id s
           then (if ev_action event = Some ''on'' then ''ON'' else ''OFF'')
           else (if 0 < round (of_nat l * 100 / 255 :: rat) then ''ON'' else ''OFF''))
        # (if ev_application event = ha_discovery_pir_app_id s then []
           else [(''cbus/read/'' @ the_str (ev_network event) @ ''/'' @ the_str (ev_application event)
                    @ ''/'' @ the_str (ev_group event) @ ''/level'',
                  natToString (nat (round (of_nat l * 100 / 255 :: rat))))]))"
proof (intro conjI impI)
  assume "list_all isDigit ip \<and> ip \<noteq> [] \<and> list_all isDigit fp \<and> length fp \<le> 12
      \<and> decimalValue ip fp \<le> 100 \<and> (time = [] \<or> hd time = CHR '','')
      \<and> cmd_commandType c = Some ''ramp''
      \<and> cmd_payload c = ip @ (if fp = [] then [] else ''.'' @ fp) @ time"
  then show "cmd_level (parsePayload c) = Some (LevelNumber (round (decimalValue ip fp * 255 / 100)))"
    by (intro ramp_payload_decimal [where time = time]) simp_all
next
  assume "ev_isValid event \<and> ev_level event = Some l \<and> l \<le> 255"
  then show "mqttPublishQueue (publishEvent event s)
      = mqttPublishQueue s
        @ (''cbus/read/'' @ the_str (ev_network event) @ ''/'' @ the_str (ev_application event)
             @ ''/'' @ the_str (ev_group event) @ ''/state'',
           if ev_application event = ha_discovery_pir_app_id s
           then (if ev_action event = Some ''on'' then ''ON'' else ''OFF'')
           else (if 0 < round (of_nat l * 100 / 255 :: rat) then ''ON'' else ''OFF''))
        # (if ev_application event = ha_discovery_pir_app_id s then []
           else [(''cbus/read/'' @ the_str (ev_network event) @ ''/'' @ the_str (ev_application event)
                    @ ''/'' @ the_str (ev_group event) @ ''/level'',
                  natToString (nat (round (of_nat l * 100 / 255 :: rat))))])"
    by (intro publishEvent_level) simp_all
qed

lemma ramp_event_128:
  "newCBusEvent ''lighting ramp 254/56/4 128'' =
     \<lparr>ev_rawEvent = ''lighting ramp 254/56/4 128'', ev_parsed = True,
      ev_deviceType = Some ''lighting'', ev_action = Some ''ramp'', ev_address = Some ''254/56/4'',
      ev_level = Some 128, ev_levelRaw = Some 128, ev_network = Some ''254'',
      ev_application = Some ''56'', ev_group = Some ''4'', ev_isValid = True\<rparr>"
  by code_simp

lemma ramp_event_999:
  "newCBusEvent ''lighting ramp 254/56/4 999'' =
     \<lparr>ev_rawEvent = ''lighting ramp 254/56/4 999'', ev_parsed = True,
      ev_deviceType = Some ''lighting'', ev_action = Some ''ramp'', ev_address = Some ''254/56/4'',
      ev_level = Some 999, ev_levelRaw = Some 999, ev_network = Some ''254'',
      ev_application = Some ''56'', ev_group = Some ''4'', ev_isValid = True\<rparr>"
  by code_simp

lemma decimal_examples:
  "decimalValue ''12'' ''5'' = 25 / 2"
  "decimalValue ''50'' [] = 50"
  "decimalValue ''29'' ''6078431372549'' = 296078431372549 / 10 ^ 13"
  by (simp_all add: decimalValue_def)

lemma digit_examples:
  "list_all isDigit ''12''" "list_all isDigit ''5''" "list_all isDigit ''50''"
  "list_all isDigit ''29''" "list_all isDigit ''6078431372549''" "list_all isDigit []"
  by code_simp+

theorem level_scaling_witness:
  "cmd_level (parsePayload
       \<lparr>cmd_topic = ''cbus/write/254/56/4/ramp'', cmd_payload = ''12.5,4s'', cmd_parsed = False,
        cmd_isValid = False, cmd_network = Some ''254'', cmd_application = Some ''56'',
        cmd_group = Some ''4'', cmd_commandType = Some ''ramp'', cmd_level = None,
        cmd_rampTime = None\<rparr>) = Some (LevelNumber 32)
   \<and> cmd_level (parsePayload
       \<lparr>cmd_topic = ''cbus/write/254/56/4/ramp'', cmd_payload = ''50'', cmd_parsed = False,
        cmd_isValid = False, cmd_network = Some ''254'', cmd_application = Some ''56'',
        cmd_group = Some ''4'', cmd_commandType = Some ''ramp'', cmd_level = None,
        cmd_rampTime = None\<rparr>) = Some (LevelNumber 128)
   \<and> mqttPublishQueue (publishEvent (newCBusEvent ''lighting ramp 254/56/4 128'')
         (newBridge ''HOME'' False None))
       = [(''cbus/read/254/56/4/state'', ''ON''), (''cbus/read/254/56/4/level'', ''50'')]"
proof -
  let ?c1 = "\<lparr>cmd_topic = ''cbus/write/254/56/4/ramp'', cmd_payload = ''12.5,4s'', cmd_parsed = False,
        cmd_isValid = False, cmd_network = Some ''254'', cmd_application = Some ''56'',
        cmd_group = Some ''4'', cmd_commandType = Some ''ramp'', cmd_level = None,
        cmd_rampTime = None\<rparr>"
  let ?c2 = "\<lparr>cmd_topic = ''cbus/write/254/56/4/ramp'', cmd_payload = ''50'', cmd_parsed = False,
        cmd_isValid = False, cmd_network = Some ''254'', cmd_application = Some ''56'',
        cmd_group = Some ''4'', cmd_commandType = Some ''ramp'', cmd_level = None,
        cmd_rampTime = None\<rparr>"
  let ?e = "newCBusEvent ''lighting ramp 254/56/4 128''"
  let ?s = "newBridge ''HOME'' False None"
  have r: "round (decimalValue ''12'' ''5'' * 255 / 100) = 32"
    "round (decimalValue ''50'' [] * 255 / 100) = 128"
    "round (of_nat 128 * 100 / 255 :: rat) = 50"
    unfolding decimal_examples round_def by (rule floor_unique, simp, simp)+
  have le: "decimalValue ''12'' ''5'' \<le> 100" "decimalValue ''50'' [] \<le> 100"
    by (simp_all add: decimal_examples)
  have "cmd_level (parsePayload ?c1) = Some (LevelNumber (round (decimalValue ''12'' ''5'' * 255 / 100)))"
    by (rule level_scaling [where ip = "''12''" and fp = "''5''" and time = "'',4s''",
          THEN conjunct1, rule_format])
       (intro conjI digit_examples le, simp_all)
  then have a: "cmd_level (parsePayload ?c1) = Some (LevelNumber 32)" by (simp only: r)
  have "cmd_level (parsePayload ?c2) = Some (LevelNumber (round (decimalValue ''50'' [] * 255 / 100)))"
    by (rule level_scaling [where ip = "''50''" and fp = "[]" and time = "[]",
          THEN conjunct1, rule_format])
       (intro conjI digit_examples le, simp_all)
  then have b: "cmd_level (parsePayload ?c2) = Some (LevelNumber 128)" by (simp only: r)
  have n: "natToString (nat 50) = ''50''" by code_simp
  have ev: "ev_isValid ?e \<and> ev_level ?e = Some 128 \<and> (128::nat) \<le> 255" by (simp add: ramp_event_128)
  have "mqttPublishQueue (publishEvent ?e ?s)
      = mqttPublishQueue ?s
        @ (''cbus/read/'' @ the_str (ev_network ?e) @ ''/'' @ the_str (ev_application ?e)
             @ ''/'' @ the_str (ev_group ?e) @ ''/state'',
           if ev_application ?e = ha_discovery_pir_app_id ?s
           then (if ev_action ?e = Some ''on'' then ''ON'' else ''OFF'')
           else (if 0 < round (of_nat 128 * 100 / 255 :: rat) then ''ON'' else ''OFF''))
        # (if ev_application ?e = ha_discovery_pir_app_id ?s then []
           else [(''cbus/read/'' @ the_str (ev_network ?e) @ ''/'' @ the_str (ev_application ?e)
                    @ ''/'' @ the_str (ev_group ?e) @ ''/level'',
                  natToString (nat (round (of_nat 128 * 100 / 255 :: rat))))])"
    by (rule level_scaling [THEN conjunct2, rule_format, OF ev])
  then have c: "mqttPublishQueue (publishEvent ?e ?s)
       = [(''cbus/read/254/56/4/state'', ''ON''), (''cbus/read/254/56/4/level'', ''50'')]"
    unfolding r n by (simp add: ramp_event_128 newBridge_def the_str_def)
  from a b c show ?thesis by (intro conjI)
qed

lemma ramp_command_near_tie:
  "newCBusCommand ''cbus/write/254/56/4/ramp'' ''29.6078431372549'' =
     (parsePayload
        \<lparr>cmd_topic = ''cbus/write/254/56/4/ramp'', cmd_payload = ''29.6078431372549'',
         cmd_parsed = False, cmd_isValid = False, cmd_network = Some ''254'',
         cmd_application = Some ''56'', cmd_group = Some ''4'', cmd_commandType = Some ''ramp'',
         cmd_level = None, cmd_rampTime = None\<rparr>)\<lparr>cmd_isValid := True, cmd_parsed := True\<rparr>"
proof -
  have t: "trim ''cbus/write/254/56/4/ramp'' = ''cbus/write/254/56/4/ramp''"
    "trim ''29.6078431372549'' = ''29.6078431372549''"
    "matchCommandTopic ''cbus/write/254/56/4/ramp'' = Some (''254'', ''56'', ''4'', ''ramp'')"
    "''ramp'' \<in> set validCommandTypes"
    by code_simp+
  show ?thesis
    by (simp add: newCBusCommand_def parse_def Let_def t)
qed

text \<open>
  For every percentage the statement fails. The payload \<open>29.6078431372549\<close>, with 13
  digits after the point, is a percentage whose exact product with 255/100 is
  75.499999999999995, so the level of the claim is 75; the double product of the source
  is 75.5 and the command gets the level 76.
\<close>

theorem level_scaling_counterexample:
  "decimalValue ''29'' ''6078431372549'' = 296078431372549 / 10 ^ 13
   \<and> decimalValue ''29'' ''6078431372549'' \<le> 100
   \<and> round (decimalValue ''29'' ''6078431372549'' * 255 / 100) = 75
   \<and> cmd_isValid (newCBusCommand ''cbus/write/254/56/4/ramp'' ''29.6078431372549'')
   \<and> cmd_level (newCBusCommand ''cbus/write/254/56/4/ramp'' ''29.6078431372549'')
       = Some (LevelNumber 76)"
proof -
  let ?c = "\<lparr>cmd_topic = ''cbus/write/254/56/4/ramp'', cmd_payload = ''29.6078431372549'',
         cmd_parsed = False, cmd_isValid = False, cmd_network = Some ''254'',
         cmd_application = Some ''56'', cmd_group = Some ''4'', cmd_commandType = Some ''ramp'',
         cmd_level = None, cmd_rampTime = None\<rparr>"
  have le: "decimalValue ''29'' ''6078431372549'' \<le> 100"
    by (simp add: decimal_examples)
  have r: "round (decimalValue ''29'' ''6078431372549'' * 255 / 100) = 75"
    unfolding decimal_examples by (rule near_tie_level(2))
  have "cmd_level (parsePayload ?c)
      = Some (LevelNumber (scalePercent (clampPercent (number (decimalValue ''29'' ''6078431372549'')))))"
    by (rule ramp_payload_level [where time = "[]", OF digit_examples(4) _ digit_examples(5)])
       simp_all
  then have l: "cmd_level (parsePayload ?c) = Some (LevelNumber 76)"
    unfolding decimal_examples near_tie_level(1) .
  from l have "cmd_level (newCBusCommand ''cbus/write/254/56/4/ramp'' ''29.6078431372549'')
       = Some (LevelNumber 76)"
    by (simp add: ramp_command_near_tie)
  moreover have "cmd_isValid (newCBusCommand ''cbus/write/254/56/4/ramp'' ''29.6078431372549'')"
    by (simp add: ramp_command_near_tie)
  ultimately show ?thesis using le r decimal_examples(3) by (intro conjI)
qed

text \<open>
  Claim C8, as the code has it. A valid event whose level, when it has one, is at most
  255 is published with a state message followed, unless its application is the PIR
  application, by one level message whose payload is the decimal string of a number from
  0 to 100.
\<close>

theorem published_level_range:
  assumes "ev_isValid (newCBusEvent line)"
    and "\<forall>l. ev_level (newCBusEvent line) = Some l \<longrightarrow> l \<le> 255"
  shows "\<exists>base state k. k \<le> 100 \<and>
           mqttPublishQueue (publishEvent (newCBusEvent line) s) =
             mqttPublishQueue s @ (base @ ''/state'', state)
               # (if ev_application (newCBusEvent line) = ha_discovery_pir_app_id s then []
                  else [(base @ ''/level'', natToString k)])"
proof -
  let ?e = "newCBusEvent line"
  from eventLevelPercent_range [OF assms(2)]
  have r: "0 \<le> eventLevelPercent ?e" "eventLevelPercent ?e \<le> 100" by simp_all
  then have k: "nat (eventLevelPercent ?e) \<le> 100"
    and str: "numberToString (eventLevelPercent ?e) = natToString (nat (eventLevelPercent ?e))"
    by (simp_all add: numberToString_nonneg)
  from assms(1) have "\<exists>base state.
      mqttPublishQueue (publishEvent ?e s) =
        mqttPublishQueue s @ (base @ ''/state'', state)
          # (if ev_application ?e = ha_discovery_pir_app_id s then []
             else [(base @ ''/level'', natToString (nat (eventLevelPercent ?e)))])"
    by (simp add: publishEvent_def Let_def str)
  with k show ?thesis by blast
qed

theorem published_level_range_witness:
  "mqttPublishQueue (publishEvent (newCBusEvent ''lighting ramp 254/56/4 128'') (newBridge ''HOME'' False None))
     = [(''cbus/read/254/56/4/state'', ''ON''), (''cbus/read/254/56/4/level'', ''50'')]
   \<and> (\<exists>base state k. k \<le> 100 \<and>
         mqttPublishQueue (publishEvent (newCBusEvent ''lighting ramp 254/56/4 128'') (newBridge ''HOME'' False None)) =
           mqttPublishQueue (newBridge ''HOME'' False None) @ (base @ ''/state'', state)
             # (if ev_application (newCBusEvent ''lighting ramp 254/56/4 128'')
                     = ha_discovery_pir_app_id (newBridge ''HOME'' False None) then []
                else [(base @ ''/level'', natToString k)]))"
proof -
  let ?e = "newCBusEvent ''lighting ramp 254/56/4 128''"
  let ?s = "newBridge ''HOME'' False None"
  have v: "ev_isValid ?e" by (simp add: ramp_event_128)
  have l: "\<forall>l. ev_level ?e = Some l \<longrightarrow> l \<le> 255" by (simp add: ramp_event_128)
  have "levelPercent 128 = 50" by (simp add: levelPercent_exact(2))
  moreover have "numberToString 50 = ''50''" by code_simp
  ultimately have "mqttPublishQueue (publishEvent ?e ?s)
     = [(''cbus/read/254/56/4/state'', ''ON''), (''cbus/read/254/56/4/level'', ''50'')]"
    by (simp add: publishEvent_def eventLevelPercent_def ramp_event_128 newBridge_def the_str_def)
  with published_level_range [OF v l, of ?s] show ?thesis
    by (intro conjI)
qed

text \<open>
  Without the bound on the level the statement fails: the event parser accepts any digits
  as a level, and the publisher scales what it gets.
\<close>

theorem published_level_range_counterexample:
  "ev_isValid (newCBusEvent ''lighting ramp 254/56/4 999'')
   \<and> ev_level (newCBusEvent ''lighting ramp 254/56/4 999'') = Some 999
   \<and> eventLevelPercent (newCBusEvent ''lighting ramp 254/56/4 999'') = 392
   \<and> mqttPublishQueue (processEventLine ''lighting ramp 254/56/4 999'' (newBridge ''HOME'' False None))
        = [(''cbus/read/254/56/4/state'', ''ON''), (''cbus/read/254/56/4/level'', ''392'')]"
proof -
  have p: "levelPercent 999 = 392" by (simp add: levelPercent_exact(2))
  have n: "numberToString 392 = ''392''" by code_simp
  have h: "\<not> startsWith ''lighting ramp 254/56/4 999'' ''#''" by (simp add: startsWith_def)
  show ?thesis
    by (simp add: processEventLine_def h publishEvent_def updateLevelFromEvent_def emitLevel_def
          eventLevelPercent_def ramp_event_999 newBridge_def the_str_def p n)
qed

section \<open>MQTT command parser: proofs\<close>

lemma afterLiteral_append: "afterLiteral p (p @ r) = Some r"
  by (simp add: afterLiteral_def startsWith_def)

lemma afterLiteral_Some: "afterLiteral p s = Some r \<Longrightarrow> s = p @ r"
  by (auto simp: afterLiteral_def startsWith_def split: if_splits)
     (metis append_take_drop_id)

lemma word_run:
  assumes "list_all isWord xs" "ys = [] \<or> \<not> isWord (hd ys)"
  shows "takeWhile isWord (xs @ ys) = xs" and "dropWhile isWord (xs @ ys) = ys"
proof -
  from assms(2) have t: "takeWhile isWord ys = []" and d: "dropWhile isWord ys = ys"
    by (cases ys; auto)+
  from assms(1) have all: "\<And>x. x \<in> set xs \<Longrightarrow> isWord x" by (simp add: list_all_iff)
  show "takeWhile isWord (xs @ ys) = xs" by (simp add: takeWhile_append2 all t)
  show "dropWhile isWord (xs @ ys) = ys" by (simp add: dropWhile_append2 all d)
qed

lemma run_is_word: "list_all isWord (takeWhile isWord s)"
  by (induction s) auto

lemma after_run: "dropWhile isWord s = [] \<or> \<not> isWord (hd (dropWhile isWord s))"
  using hd_dropWhile [of isWord s] by blast

lemma slash_not_word: "\<not> isWord CHR ''/''"
  by (simp add: isWord_def)

lemma matchCommandTopic_build:
  assumes "list_all isWord n" "list_all isWord a" "list_all isWord g" "list_all isWord k" "k \<noteq> []"
    and "rest = [] \<or> \<not> isWord (hd rest)"
  shows "matchCommandTopic (''cbus/write/'' @ n @ ''/'' @ a @ ''/'' @ g @ ''/'' @ k @ rest)
           = Some (n, a, g, k)"
proof -
  let ?r4 = "k @ rest"
  let ?r3 = "g @ ''/'' @ ?r4"
  let ?r2 = "a @ ''/'' @ ?r3"
  let ?r1 = "n @ ''/'' @ ?r2"
  have sl: "\<And>r. ''/'' @ r = [] \<or> \<not> isWord (hd (''/'' @ r))" by (simp add: slash_not_word)
  note w1 = word_run [OF assms(1) sl, of ?r2]
  note w2 = word_run [OF assms(2) sl, of ?r3]
  note w3 = word_run [OF assms(3) sl, of ?r4]
  note w4 = word_run [OF assms(4) assms(6)]
  have "matchCommandTopic (''cbus/write/'' @ ?r1) = Some (n, a, g, k)"
    unfolding matchCommandTopic_def
    by (simp only: afterLiteral_append option.case w1 w2 w3 w4 assms(5) if_False)
  then show ?thesis by simp
qed

lemma matchCommandTopic_Some:
  assumes "matchCommandTopic t = Some (n, a, g, k)"
  shows "\<exists>rest. t = ''cbus/write/'' @ n @ ''/'' @ a @ ''/'' @ g @ ''/'' @ k @ rest
          \<and> list_all isWord n \<and> list_all isWord a \<and> list_all isWord g \<and> list_all isWord k
          \<and> k \<noteq> [] \<and> (rest = [] \<or> \<not> isWord (hd rest))"
proof -
  from assms obtain r1 r2 r3 r4 where
    1: "afterLiteral ''cbus/write/'' t = Some r1" and
    2: "afterLiteral ''/'' (dropWhile isWord r1) = Some r2" and
    3: "afterLiteral ''/'' (dropWhile isWord r2) = Some r3" and
    4: "afterLiteral ''/'' (dropWhile isWord r3) = Some r4" and
    5: "takeWhile isWord r4 \<noteq> []" and
    r: "n = takeWhile isWord r1" "a = takeWhile isWord r2" "g = takeWhile isWord r3"
       "k = takeWhile isWord r4"
    by (auto simp: matchCommandTopic_def split: option.splits if_splits)
  have "t = ''cbus/write/'' @ r1" by (rule afterLiteral_Some [OF 1])
  also have "r1 = n @ dropWhile isWord r1" by (simp add: r)
  also have "dropWhile isWord r1 = ''/'' @ r2" by (rule afterLiteral_Some [OF 2])
  also have "r2 = a @ dropWhile isWord r2" by (simp add: r)
  also have "dropWhile isWord r2 = ''/'' @ r3" by (rule afterLiteral_Some [OF 3])
  also have "r3 = g @ dropWhile isWord r3" by (simp add: r)
  also have "dropWhile isWord r3 = ''/'' @ r4" by (rule afterLiteral_Some [OF 4])
  also have "r4 = k @ dropWhile isWord r4" by (simp add: r)
  finally have "t = ''cbus/write/'' @ n @ ''/'' @ a @ ''/'' @ g @ ''/'' @ k @ dropWhile isWord r4" .
  with 5 r run_is_word after_run [of r4] show ?thesis by blast
qed

lemma parsePayload_keeps:
  "cmd_network (parsePayload c) = cmd_network c"
  "cmd_application (parsePayload c) = cmd_application c"
  "cmd_group (parsePayload c) = cmd_group c"
  "cmd_commandType (parsePayload c) = cmd_commandType c"
  by (simp_all add: parsePayload_def parseSwitchPayload_def parseRampPayload_def
        parseRampLevelAndTime_def Let_def split: option.splits)

text \<open>
  Once the topic matches and names a known kind, the command is valid: the verdict of
  the payload parsers does not survive \<open>_parse()\<close>.
\<close>

lemma parse_valid:
  assumes "matchCommandTopic (cmd_topic c) = Some (n, a, g, k)" "k \<in> set validCommandTypes"
  shows "cmd_isValid (parse c)" "cmd_network (parse c) = Some n" "cmd_application (parse c) = Some a"
    "cmd_group (parse c) = Some g" "cmd_commandType (parse c) = Some k"
  using assms by (simp_all add: parse_def Let_def parsePayload_keeps)

lemma parse_valid_only:
  assumes "cmd_isValid (parse c)"
  shows "\<exists>n a g k. matchCommandTopic (cmd_topic c) = Some (n, a, g, k) \<and> k \<in> set validCommandTypes"
  using assms by (auto simp: parse_def Let_def split: option.splits if_splits)

lemma command_types_are_words: "k \<in> set validCommandTypes \<Longrightarrow> list_all isWord k \<and> k \<noteq> []"
  by (auto simp: validCommandTypes_def isWord_def)

text \<open>
  Claim C1, as the code has it. A valid command has a trimmed topic that begins with a
  match of \<open>cbus/write/(\w*)/(\w*)/(\w*)/(\w+)\<close>, the last run being one of the five kinds
  (what follows that run is not looked at), and every such topic with a payload in the
  kind's grammar gives a valid command.
\<close>

theorem valid_command_topics:
  "(cmd_isValid (newCBusCommand topic payload) \<longrightarrow>
      (\<exists>n a g k rest.
          trim topic = ''cbus/write/'' @ n @ ''/'' @ a @ ''/'' @ g @ ''/'' @ k @ rest
          \<and> list_all isWord n \<and> list_all isWord a \<and> list_all isWord g
          \<and> (rest = [] \<or> \<not> isWord (hd rest)) \<and> k \<in> set validCommandTypes))
   \<and> (trim topic = ''cbus/write/'' @ n @ ''/'' @ a @ ''/'' @ g @ ''/'' @ k @ rest
        \<and> list_all isWord n \<and> list_all isWord a \<and> list_all isWord g
        \<and> (rest = [] \<or> \<not> isWord (hd rest)) \<and> k \<in> set validCommandTypes
        \<and> payloadGrammar k payload \<longrightarrow>
      cmd_isValid (newCBusCommand topic payload))"
proof (intro conjI impI)
  let ?c = "\<lparr>cmd_topic = trim topic, cmd_payload = trim payload, cmd_parsed = False,
             cmd_isValid = False, cmd_network = None, cmd_application = None, cmd_group = None,
             cmd_commandType = None, cmd_level = None, cmd_rampTime = None\<rparr>"
  assume v: "cmd_isValid (newCBusCommand topic payload)"
  then have "cmd_isValid (parse ?c)"
    by (simp add: newCBusCommand_def Let_def split: if_splits)
  from parse_valid_only [OF this] obtain n a g k
    where m: "matchCommandTopic (trim topic) = Some (n, a, g, k)" and k: "k \<in> set validCommandTypes"
    by auto
  from matchCommandTopic_Some [OF m] k
  show "\<exists>n a g k rest.
          trim topic = ''cbus/write/'' @ n @ ''/'' @ a @ ''/'' @ g @ ''/'' @ k @ rest
          \<and> list_all isWord n \<and> list_all isWord a \<and> list_all isWord g
          \<and> (rest = [] \<or> \<not> isWord (hd rest)) \<and> k \<in> set validCommandTypes"
    by blast
next
  let ?c = "\<lparr>cmd_topic = trim topic, cmd_payload = trim payload, cmd_parsed = False,
             cmd_isValid = False, cmd_network = None, cmd_application = None, cmd_group = None,
             cmd_commandType = None, cmd_level = None, cmd_rampTime = None\<rparr>"
  assume a: "trim topic = ''cbus/write/'' @ n @ ''/'' @ a @ ''/'' @ g @ ''/'' @ k @ rest
        \<and> list_all isWord n \<and> list_all isWord a \<and> list_all isWord g
        \<and> (rest = [] \<or> \<not> isWord (hd rest)) \<and> k \<in> set validCommandTypes
        \<and> payloadGrammar k payload"
  then have k: "k \<in> set validCommandTypes" by simp
  from command_types_are_words [OF k] a
  have "matchCommandTopic (''cbus/write/'' @ n @ ''/'' @ a @ ''/'' @ g @ ''/'' @ k @ rest) = Some (n, a, g, k)"
    by (intro matchCommandTopic_build) simp_all
  with a have m: "matchCommandTopic (cmd_topic ?c) = Some (n, a, g, k)" by simp
  from a have ne: "trim topic \<noteq> []" by auto
  from parse_valid(1) [OF m k] ne show "cmd_isValid (newCBusCommand topic payload)"
    by (simp add: newCBusCommand_def Let_def)
qed

theorem valid_command_topics_witness:
  "cmd_isValid (newCBusCommand '' cbus/write/254/56/4/switch '' ''on'')"
proof -
  have t: "trim '' cbus/write/254/56/4/switch '' = ''cbus/write/'' @ ''254'' @ ''/'' @ ''56'' @ ''/'' @ ''4'' @ ''/'' @ ''switch'' @ []"
    by code_simp
  have w: "list_all isWord ''254''" "list_all isWord ''56''" "list_all isWord ''4''"
    "''switch'' \<in> set validCommandTypes" "payloadGrammar ''switch'' ''on''"
    by code_simp+
  show ?thesis
    by (rule valid_command_topics [where n = "''254''" and a = "''56''" and g = "''4''"
          and k = "''switch''" and rest = "[]", THEN conjunct2, rule_format])
       (intro conjI t w disjI1 refl)
qed

text \<open>
  The claim as stated fails in two ways. The topic expression of the code has no end
  anchor, so a topic with further text after the kind is accepted; and a payload outside
  the grammar of its kind does not make the command invalid.
\<close>

theorem valid_command_topics_counterexample:
  "cmd_isValid (newCBusCommand ''cbus/write/254/56/4/switch/extra'' ''ON'')
   \<and> \<not> spec_validCommand ''cbus/write/254/56/4/switch/extra'' ''ON''"
  by code_simp

lemma invalid_switch_payload_accepted:
  "cmd_isValid (newCBusCommand ''cbus/write/254/56/4/switch'' ''MAYBE'')
   \<and> cmd_level (newCBusCommand ''cbus/write/254/56/4/switch'' ''MAYBE'') = None
   \<and> \<not> spec_validCommand ''cbus/write/254/56/4/switch'' ''MAYBE''"
  by code_simp

section \<open>Relative level operations: proofs\<close>

lemma upper_words: "toUpperCase ''INCREASE'' = ''INCREASE''" "toUpperCase ''DECREASE'' = ''DECREASE''"
  by code_simp+

lemma ramp_is_a_type: "''ramp'' \<in> set validCommandTypes" "list_all isWord ''ramp''"
  by code_simp+

lemma announce_no_match: "matchCommandTopic ''cbus/write/bridge/announce'' = None"
  by code_simp

lemma runListener_other:
  "\<not> listensFor address l \<Longrightarrow>
     cgateCommandQueue (runListener address currentLevel l s) = cgateCommandQueue s"
  by (cases l) (auto simp: runListener_def listensFor_def)

lemma foldl_runListener_others:
  "list_all (\<lambda>l. \<not> listensFor address l) ls \<Longrightarrow>
     cgateCommandQueue (foldl (\<lambda>s' l. runListener address currentLevel l s') s ls)
       = cgateCommandQueue s"
  by (induction ls arbitrary: s) (simp_all add: runListener_other)

lemma emitLevel_last:
  assumes "levelListeners s = ls @ [RelativeLevel cbusPath address step limit actionName]"
    and "list_all (\<lambda>l. \<not> listensFor address l) ls"
  shows "cgateCommandQueue (emitLevel address currentLevel s)
     = cgateCommandQueue s
       @ [''RAMP '' @ cbusPath @ '' '' @ numberToString (max 0 (min limit (int currentLevel + step)))
          @ [CHR 0x0A]]"
proof -
  have "cgateCommandQueue
          (foldl (\<lambda>s' l. runListener address currentLevel l s') (s\<lparr>levelListeners := []\<rparr>) ls)
      = cgateCommandQueue s"
    by (simp add: foldl_runListener_others [OF assms(2)])
  then show ?thesis
    by (simp add: emitLevel_def assms(1) runListener_def queueCommand_def Let_def)
qed

lemma handleRamp_relative:
  assumes "cmd_network c = Some n" "cmd_application c = Some a" "cmd_group c = Some g" "g \<noteq> []"
    and "list_all (\<lambda>l. \<not> listensFor (n @ ''/'' @ a @ ''/'' @ g) l) (levelListeners s)"
    and "(payload, step) = (''INCREASE'', 26) \<or> (payload, step) = (''DECREASE'', - 26)"
  shows "cgateCommandQueue (emitLevel (n @ ''/'' @ a @ ''/'' @ g) current (handleRamp c payload s))
     = cgateCommandQueue s
       @ [''GET //'' @ cbusname s @ ''/'' @ n @ ''/'' @ a @ ''/'' @ g @ '' level'' @ [CHR 0x0A],
          ''RAMP //'' @ cbusname s @ ''/'' @ n @ ''/'' @ a @ ''/'' @ g @ '' ''
            @ natToString (nat (max 0 (min 255 (int current + step)))) @ [CHR 0x0A]]"
proof -
  let ?path = "''//'' @ cbusname s @ ''/'' @ n @ ''/'' @ a @ ''/'' @ g"
  let ?addr = "n @ ''/'' @ a @ ''/'' @ g"
  have str: "numberToString (max 0 (min 255 (int current + step)))
      = natToString (nat (max 0 (min 255 (int current + step))))"
    by (rule numberToString_nonneg) simp
  from assms(6) obtain name where
    h: "handleRamp c payload s = handleRelativeLevel ?path ?addr step 255 name s"
    using assms(1-4)
    by (auto simp: handleRamp_def Let_def buildCGatePath_def the_str_def upper_words)
  have l: "levelListeners (handleRelativeLevel ?path ?addr step 255 name s)
      = levelListeners s @ [RelativeLevel ?path ?addr step 255 name]"
    by (simp add: handleRelativeLevel_def queueCommand_def)
  have q: "cgateCommandQueue (handleRelativeLevel ?path ?addr step 255 name s)
      = cgateCommandQueue s @ [''GET '' @ ?path @ '' level'' @ [CHR 0x0A]]"
    by (simp add: handleRelativeLevel_def queueCommand_def)
  show ?thesis
    unfolding h emitLevel_last [OF l assms(5)] q str by simp
qed

text \<open>
  What the listener of \<open>_handleRelativeLevel\<close> does when it is left alone: if no earlier
  relative operation of the router is still waiting for the address \<open>n/a/g\<close> and the next
  delivery is the one for that address, the C-Gate command queue receives the level query
  and then exactly the command \<open>RAMP //<project>/n/a/g <new>\<close> with
  \<open>new = max 0 (min 255 (current + 26))\<close> (or with \<open>- 26\<close>).
\<close>

lemma relative_level_ramp_undisturbed:
  assumes "list_all isWord n" "list_all isWord a" "list_all isWord g" "g \<noteq> []"
    and "list_all (\<lambda>l. \<not> listensFor (n @ ''/'' @ a @ ''/'' @ g) l) (levelListeners s)"
    and "(payload, step) = (''INCREASE'', 26) \<or> (payload, step) = (''DECREASE'', - 26)"
  shows "cgateCommandQueue
           (emitLevel (n @ ''/'' @ a @ ''/'' @ g) current
              (routeMessage (''cbus/write/'' @ n @ ''/'' @ a @ ''/'' @ g @ ''/ramp'') payload s))
     = cgateCommandQueue s
       @ [''GET //'' @ cbusname s @ ''/'' @ n @ ''/'' @ a @ ''/'' @ g @ '' level'' @ [CHR 0x0A],
          ''RAMP //'' @ cbusname s @ ''/'' @ n @ ''/'' @ a @ ''/'' @ g @ '' ''
            @ natToString (nat (max 0 (min 255 (int current + step)))) @ [CHR 0x0A]]"
proof -
  define topic where "topic = ''cbus/write/'' @ n @ ''/'' @ a @ ''/'' @ g @ ''/ramp''"
  define c0 where "c0 = \<lparr>cmd_topic = topic, cmd_payload = trim payload, cmd_parsed = False,
             cmd_isValid = False, cmd_network = None, cmd_application = None, cmd_group = None,
             cmd_commandType = None, cmd_level = None, cmd_rampTime = None\<rparr>"
  have "matchCommandTopic (''cbus/write/'' @ n @ ''/'' @ a @ ''/'' @ g @ ''/'' @ ''ramp'' @ [])
      = Some (n, a, g, ''ramp'')"
    by (rule matchCommandTopic_build [OF assms(1-3) ramp_is_a_type(2)]) simp_all
  then have m: "matchCommandTopic topic = Some (n, a, g, ''ramp'')" by (simp add: topic_def)
  then have m0: "matchCommandTopic (cmd_topic c0) = Some (n, a, g, ''ramp'')" by (simp add: c0_def)
  from m announce_no_match have na: "topic \<noteq> ''cbus/write/bridge/announce''" by auto
  have ne: "topic \<noteq> []" by (simp add: topic_def)
  have "\<not> isSpace (hd topic)" "\<not> isSpace (last topic)" by (simp_all add: topic_def isSpace_def)
  with ne have tr: "trim topic = topic" by (intro trim_id)
  have cmd: "newCBusCommand topic payload = parse c0"
    using ne by (simp add: newCBusCommand_def Let_def tr c0_def)
  note pv = parse_valid [OF m0 ramp_is_a_type(1)]
  have route: "routeMessage topic payload s = handleRamp (parse c0) payload s"
    using na pv(1,5) by (simp add: routeMessage_def cmd Let_def processCommand_def)
  have "cgateCommandQueue (emitLevel (n @ ''/'' @ a @ ''/'' @ g) current (routeMessage topic payload s))
     = cgateCommandQueue s
       @ [''GET //'' @ cbusname s @ ''/'' @ n @ ''/'' @ a @ ''/'' @ g @ '' level'' @ [CHR 0x0A],
          ''RAMP //'' @ cbusname s @ ''/'' @ n @ ''/'' @ a @ ''/'' @ g @ '' ''
            @ natToString (nat (max 0 (min 255 (int current + step)))) @ [CHR 0x0A]]"
    unfolding route
    by (rule handleRamp_relative [OF pv(2,3,4) assms(4,5,6)])
  then show ?thesis unfolding topic_def .
qed

section \<open>Relative level operations: lost and repeated commands, duplicate registrations\<close>

lemma runListener_keeps_listeners:
  "levelListeners (runListener address currentLevel l s) = levelListeners s"
  by (cases l) (simp_all add: runListener_def queueCommand_def Let_def)

lemma foldl_runListener_keeps_listeners:
  "levelListeners (foldl (\<lambda>s' l. runListener address currentLevel l s') s ls) = levelListeners s"
  by (induction ls arbitrary: s) (simp_all add: runListener_keeps_listeners)

text \<open>
  Every delivery, for whatever address, removes all listeners registered at that moment:
  they are registered with \<open>once\<close>, and the address is compared only inside them.
\<close>

lemma emitLevel_consumes_all: "levelListeners (emitLevel address currentLevel s) = []"
  by (simp add: emitLevel_def foldl_runListener_keeps_listeners)

text \<open>The guard of \<open>setupRelativeLevelOperation\<close>: an active address is refused.\<close>

lemma setup_rejects_active:
  "address \<in> set (activeOperations s) \<Longrightarrow> setupRelativeLevelOperation address s = (None, s)"
  by (simp add: setupRelativeLevelOperation_def)

lemma route_increase_254_56_4:
  "routeMessage ''cbus/write/254/56/4/ramp'' ''INCREASE'' s =
     queueCommand (''GET //'' @ cbusname s @ ''/254/56/4 level'' @ [CHR 0x0A])
       (s\<lparr>levelListeners := levelListeners s
              @ [RelativeLevel (''//'' @ cbusname s @ ''/254/56/4'') ''254/56/4'' 26 255 ''INCREASE'']\<rparr>)"
proof -
  have c: "newCBusCommand ''cbus/write/254/56/4/ramp'' ''INCREASE'' =
      \<lparr>cmd_topic = ''cbus/write/254/56/4/ramp'', cmd_payload = ''INCREASE'', cmd_parsed = True,
       cmd_isValid = True, cmd_network = Some ''254'', cmd_application = Some ''56'',
       cmd_group = Some ''4'', cmd_commandType = Some ''ramp'',
       cmd_level = Some (LevelText ''INCREASE''), cmd_rampTime = None\<rparr>"
    by code_simp
  show ?thesis
    by (simp add: routeMessage_def c processCommand_def handleRamp_def upper_words
          buildCGatePath_def the_str_def handleRelativeLevel_def Let_def)
qed

lemma on_event_254_56_5:
  "newCBusEvent ''lighting on 254/56/5'' =
     \<lparr>ev_rawEvent = ''lighting on 254/56/5'', ev_parsed = True,
      ev_deviceType = Some ''lighting'', ev_action = Some ''on'', ev_address = Some ''254/56/5'',
      ev_level = None, ev_levelRaw = None, ev_network = Some ''254'',
      ev_application = Some ''56'', ev_group = Some ''5'', ev_isValid = True\<rparr>"
  by code_simp

lemma route_decrease_254_56_4:
  "routeMessage ''cbus/write/254/56/4/ramp'' ''DECREASE'' s =
     queueCommand (''GET //'' @ cbusname s @ ''/254/56/4 level'' @ [CHR 0x0A])
       (s\<lparr>levelListeners := levelListeners s
              @ [RelativeLevel (''//'' @ cbusname s @ ''/254/56/4'') ''254/56/4'' (- 26) 255 ''DECREASE'']\<rparr>)"
proof -
  have c: "newCBusCommand ''cbus/write/254/56/4/ramp'' ''DECREASE'' =
      \<lparr>cmd_topic = ''cbus/write/254/56/4/ramp'', cmd_payload = ''DECREASE'', cmd_parsed = True,
       cmd_isValid = True, cmd_network = Some ''254'', cmd_application = Some ''56'',
       cmd_group = Some ''4'', cmd_commandType = Some ''ramp'',
       cmd_level = Some (LevelText ''DECREASE''), cmd_rampTime = None\<rparr>"
    by code_simp
  show ?thesis
    by (simp add: routeMessage_def c processCommand_def handleRamp_def upper_words
          buildCGatePath_def the_str_def handleRelativeLevel_def Let_def)
qed

lemma status_reply_254_56_4:
  "processLine ''300-//HOME/254/56/4: level=128'' = Some (ObjectStatus ''//HOME/254/56/4: level=128'')"
  "newCBusEvent ''300 //HOME/254/56/4: level=128'' =
     \<lparr>ev_rawEvent = ''300 //HOME/254/56/4: level=128'', ev_parsed = True,
      ev_deviceType = Some ''lighting'', ev_action = Some ''on'', ev_address = Some ''254/56/4'',
      ev_level = Some 128, ev_levelRaw = Some 128, ev_network = Some ''254'',
      ev_application = Some ''56'', ev_group = Some ''4'', ev_isValid = True\<rparr>"
  by code_simp+

lemma off_event_254_56_9:
  "newCBusEvent ''lighting off 254/56/9'' =
     \<lparr>ev_rawEvent = ''lighting off 254/56/9'', ev_parsed = True,
      ev_deviceType = Some ''lighting'', ev_action = Some ''off'', ev_address = Some ''254/56/9'',
      ev_level = None, ev_levelRaw = None, ev_network = Some ''254'',
      ev_application = Some ''56'', ev_group = Some ''9'', ev_isValid = True\<rparr>"
  by code_simp

text \<open>
  Claim C4 on the code. A ramp \<open>INCREASE\<close> for 254/56/4 followed by the reply
  \<open>300-//HOME/254/56/4: level=128\<close> queues the level query and \<open>RAMP //HOME/254/56/4 154\<close>,
  as the claim says. When the event \<open>lighting off 254/56/9\<close> arrives between the command
  and the reply, the reply queues no \<open>RAMP\<close> command at all; and when a \<open>DECREASE\<close> for
  the same address is still waiting, the reply queues two \<open>RAMP\<close> commands, to 102 and to
  154, instead of exactly the one of the \<open>INCREASE\<close>.
\<close>

theorem relative_level_ramp_lost_or_repeated:
  "cgateCommandQueue
     (processCommandLine ''300-//HOME/254/56/4: level=128''
        (routeMessage ''cbus/write/254/56/4/ramp'' ''INCREASE'' (newBridge ''HOME'' False None)))
     = [''GET //HOME/254/56/4 level'' @ [CHR 0x0A], ''RAMP //HOME/254/56/4 154'' @ [CHR 0x0A]]
   \<and> cgateCommandQueue
     (processCommandLine ''300-//HOME/254/56/4: level=128''
        (processEventLine ''lighting off 254/56/9''
           (routeMessage ''cbus/write/254/56/4/ramp'' ''INCREASE'' (newBridge ''HOME'' False None))))
     = [''GET //HOME/254/56/4 level'' @ [CHR 0x0A]]
   \<and> cgateCommandQueue
     (processCommandLine ''300-//HOME/254/56/4: level=128''
        (routeMessage ''cbus/write/254/56/4/ramp'' ''INCREASE''
           (routeMessage ''cbus/write/254/56/4/ramp'' ''DECREASE'' (newBridge ''HOME'' False None))))
     = [''GET //HOME/254/56/4 level'' @ [CHR 0x0A], ''GET //HOME/254/56/4 level'' @ [CHR 0x0A],
        ''RAMP //HOME/254/56/4 102'' @ [CHR 0x0A], ''RAMP //HOME/254/56/4 154'' @ [CHR 0x0A]]"
proof -
  have n: "numberToString 154 = ''154''" "numberToString 102 = ''102''" by code_simp+
  have h: "\<not> startsWith ''lighting off 254/56/9'' ''#''" by (simp add: startsWith_def)
  note defs = processCommandLine_def status_reply_254_56_4 processCommandObjectStatus_def
    processEventLine_def h off_event_254_56_9 updateLevelFromEvent_def publishEvent_def
    route_increase_254_56_4 route_decrease_254_56_4 queueCommand_def newBridge_def
    emitLevel_def runListener_def the_str_def Let_def n
  have a: "cgateCommandQueue
     (processCommandLine ''300-//HOME/254/56/4: level=128''
        (routeMessage ''cbus/write/254/56/4/ramp'' ''INCREASE'' (newBridge ''HOME'' False None)))
     = [''GET //HOME/254/56/4 level'' @ [CHR 0x0A], ''RAMP //HOME/254/56/4 154'' @ [CHR 0x0A]]"
    by (simp add: defs)
  have b: "cgateCommandQueue
     (processCommandLine ''300-//HOME/254/56/4: level=128''
        (processEventLine ''lighting off 254/56/9''
           (routeMessage ''cbus/write/254/56/4/ramp'' ''INCREASE'' (newBridge ''HOME'' False None))))
     = [''GET //HOME/254/56/4 level'' @ [CHR 0x0A]]"
    by (simp add: defs)
  have c: "cgateCommandQueue
     (processCommandLine ''300-//HOME/254/56/4: level=128''
        (routeMessage ''cbus/write/254/56/4/ramp'' ''INCREASE''
           (routeMessage ''cbus/write/254/56/4/ramp'' ''DECREASE'' (newBridge ''HOME'' False None))))
     = [''GET //HOME/254/56/4 level'' @ [CHR 0x0A], ''GET //HOME/254/56/4 level'' @ [CHR 0x0A],
        ''RAMP //HOME/254/56/4 102'' @ [CHR 0x0A], ''RAMP //HOME/254/56/4 154'' @ [CHR 0x0A]]"
    by (simp add: defs)
  from a b c show ?thesis by (intro conjI)
qed

text \<open>
  Claim C5 on the code. A ramp \<open>INCREASE\<close> for 254/56/4 is routed, the event
  \<open>lighting on 254/56/5\<close> arrives, then the level 128 is delivered for 254/56/4. The
  delivery for the other address has removed the listener, so no \<open>RAMP\<close> command is ever
  queued. The same happens to an operation registered with
  \<open>setupRelativeLevelOperation\<close>: it stays in \<open>activeOperations\<close>, but its callback is not
  called by the later delivery for its own address.
\<close>

theorem other_address_consumes_registration:
  "levelListeners (routeMessage ''cbus/write/254/56/4/ramp'' ''INCREASE'' (newBridge ''HOME'' False None))
     = [RelativeLevel ''//HOME/254/56/4'' ''254/56/4'' 26 255 ''INCREASE'']
   \<and> levelListeners (processEventLine ''lighting on 254/56/5''
         (routeMessage ''cbus/write/254/56/4/ramp'' ''INCREASE'' (newBridge ''HOME'' False None))) = []
   \<and> cgateCommandQueue (emitLevel ''254/56/4'' 128
         (processEventLine ''lighting on 254/56/5''
            (routeMessage ''cbus/write/254/56/4/ramp'' ''INCREASE'' (newBridge ''HOME'' False None))))
     = [''GET //HOME/254/56/4 level'' @ [CHR 0x0A]]
   \<and> isRelativeLevelOperationActive ''254/56/4''
         (emitLevel ''254/56/5'' 255
            (snd (setupRelativeLevelOperation ''254/56/4'' (newBridge ''HOME'' False None))))
   \<and> callbacks (emitLevel ''254/56/4'' 128
         (emitLevel ''254/56/5'' 255
            (snd (setupRelativeLevelOperation ''254/56/4'' (newBridge ''HOME'' False None))))) = []"
proof -
  have h: "\<not> startsWith ''lighting on 254/56/5'' ''#''" by (simp add: startsWith_def)
  have a: "levelListeners (routeMessage ''cbus/write/254/56/4/ramp'' ''INCREASE'' (newBridge ''HOME'' False None))
     = [RelativeLevel ''//HOME/254/56/4'' ''254/56/4'' 26 255 ''INCREASE'']"
    by (simp add: route_increase_254_56_4 queueCommand_def newBridge_def)
  have b: "levelListeners (processEventLine ''lighting on 254/56/5''
         (routeMessage ''cbus/write/254/56/4/ramp'' ''INCREASE'' (newBridge ''HOME'' False None))) = []"
    by (simp add: processEventLine_def h on_event_254_56_5 updateLevelFromEvent_def
          publishEvent_def newBridge_def route_increase_254_56_4 queueCommand_def
          emitLevel_consumes_all Let_def)
  have c: "cgateCommandQueue (emitLevel ''254/56/4'' 128
         (processEventLine ''lighting on 254/56/5''
            (routeMessage ''cbus/write/254/56/4/ramp'' ''INCREASE'' (newBridge ''HOME'' False None))))
     = [''GET //HOME/254/56/4 level'' @ [CHR 0x0A]]"
    by (simp add: processEventLine_def h on_event_254_56_5 updateLevelFromEvent_def
          publishEvent_def newBridge_def route_increase_254_56_4 queueCommand_def
          emitLevel_def runListener_def the_str_def Let_def)
  have d: "isRelativeLevelOperationActive ''254/56/4''
         (emitLevel ''254/56/5'' 255
            (snd (setupRelativeLevelOperation ''254/56/4'' (newBridge ''HOME'' False None))))"
    by (simp add: isRelativeLevelOperationActive_def setupRelativeLevelOperation_def newBridge_def
          emitLevel_def runListener_def Let_def)
  have e: "callbacks (emitLevel ''254/56/4'' 128
         (emitLevel ''254/56/5'' 255
            (snd (setupRelativeLevelOperation ''254/56/4'' (newBridge ''HOME'' False None))))) = []"
    by (simp add: setupRelativeLevelOperation_def newBridge_def
          emitLevel_def runListener_def Let_def)
  from a b c d e show ?thesis by (intro conjI)
qed

text \<open>
  Claim C6 on the code. The router registers its listener without consulting
  \<open>activeOperations\<close>: two \<open>INCREASE\<close> commands for 254/56/4 leave two listeners for that
  address, and one delivery then queues two \<open>RAMP\<close> commands. The guard exists only in
  \<open>setupRelativeLevelOperation\<close>, and \<open>cancelRelativeLevelOperation\<close> forgets the address
  without removing its listener, so a registration after a cancel adds a second one.
\<close>

theorem duplicate_relative_operations:
  "levelListeners (routeMessage ''cbus/write/254/56/4/ramp'' ''INCREASE''
       (routeMessage ''cbus/write/254/56/4/ramp'' ''INCREASE'' (newBridge ''HOME'' False None)))
     = [RelativeLevel ''//HOME/254/56/4'' ''254/56/4'' 26 255 ''INCREASE'',
        RelativeLevel ''//HOME/254/56/4'' ''254/56/4'' 26 255 ''INCREASE'']
   \<and> cgateCommandQueue (emitLevel ''254/56/4'' 128
       (routeMessage ''cbus/write/254/56/4/ramp'' ''INCREASE''
          (routeMessage ''cbus/write/254/56/4/ramp'' ''INCREASE'' (newBridge ''HOME'' False None))))
     = [''GET //HOME/254/56/4 level'' @ [CHR 0x0A], ''GET //HOME/254/56/4 level'' @ [CHR 0x0A],
        ''RAMP //HOME/254/56/4 154'' @ [CHR 0x0A], ''RAMP //HOME/254/56/4 154'' @ [CHR 0x0A]]
   \<and> levelListeners (snd (setupRelativeLevelOperation ''254/56/4''
         (cancelRelativeLevelOperation ''254/56/4''
            (snd (setupRelativeLevelOperation ''254/56/4'' (newBridge ''HOME'' False None))))))
     = [LevelHandler 0 ''254/56/4'', LevelHandler 1 ''254/56/4'']"
proof -
  have n: "numberToString 154 = ''154''" by code_simp
  have a: "levelListeners (routeMessage ''cbus/write/254/56/4/ramp'' ''INCREASE''
       (routeMessage ''cbus/write/254/56/4/ramp'' ''INCREASE'' (newBridge ''HOME'' False None)))
     = [RelativeLevel ''//HOME/254/56/4'' ''254/56/4'' 26 255 ''INCREASE'',
        RelativeLevel ''//HOME/254/56/4'' ''254/56/4'' 26 255 ''INCREASE'']"
    by (simp add: route_increase_254_56_4 queueCommand_def newBridge_def)
  have b: "cgateCommandQueue (emitLevel ''254/56/4'' 128
       (routeMessage ''cbus/write/254/56/4/ramp'' ''INCREASE''
          (routeMessage ''cbus/write/254/56/4/ramp'' ''INCREASE'' (newBridge ''HOME'' False None))))
     = [''GET //HOME/254/56/4 level'' @ [CHR 0x0A], ''GET //HOME/254/56/4 level'' @ [CHR 0x0A],
        ''RAMP //HOME/254/56/4 154'' @ [CHR 0x0A], ''RAMP //HOME/254/56/4 154'' @ [CHR 0x0A]]"
    by (simp add: route_increase_254_56_4 queueCommand_def newBridge_def emitLevel_def
          runListener_def n Let_def)
  have c: "levelListeners (snd (setupRelativeLevelOperation ''254/56/4''
         (cancelRelativeLevelOperation ''254/56/4''
            (snd (setupRelativeLevelOperation ''254/56/4'' (newBridge ''HOME'' False None))))))
     = [LevelHandler 0 ''254/56/4'', LevelHandler 1 ''254/56/4'']"
    by (simp add: setupRelativeLevelOperation_def cancelRelativeLevelOperation_def newBridge_def Let_def)
  from a b c show ?thesis by (intro conjI)
qed

end
